theory Spec2Isabelle
  imports Complex_Main "HOL-Library.AList"
begin

section \<open>Python values, strings and dictionaries\<close>

text \<open>
  Python \<open>str\<close> values are modelled as \<open>string\<close>: a list of characters whose code
  points lie below 256. \<open>str.strip()\<close> removes leading and trailing whitespace; the
  whitespace code points below 256 are 9 to 13, 28 to 32, 133 and 160.
\<close>

definition is_space :: "char \<Rightarrow> bool" where
  "is_space c = (of_char c \<in> {9, 10, 11, 12, 13, 28, 29, 30, 31, 32, 133, 160 :: nat})"

definition strip :: "string \<Rightarrow> string" where
  "strip s = rev (dropWhile is_space (rev (dropWhile is_space s)))"

definition startswith :: "string \<Rightarrow> string \<Rightarrow> bool" where
  "startswith s p = (take (length p) s = p)"

text \<open>
  \<open>str.lower()\<close> on code points below 256: the ASCII capitals and the Latin-1
  capitals 192 to 222 (without the multiplication sign 215) move up by 32.
\<close>

definition lower_char :: "char \<Rightarrow> char" where
  "lower_char c =
     (let n = (of_char c :: nat)
      in if (65 \<le> n \<and> n \<le> 90) \<or> (192 \<le> n \<and> n \<le> 222 \<and> n \<noteq> 215)
         then char_of (n + 32) else c)"

definition lower :: "string \<Rightarrow> string" where
  "lower s = map lower_char s"

text \<open>
  The values stored in a tender dictionary: \<open>None\<close>, a string, the list of attached
  document descriptors, and the \<open>_changes\<close> annotation written by the change detector
  (field name, old value, new value). A document descriptor is itself a dictionary from
  field names to a string or \<open>None\<close>. A Python \<open>dict\<close> keeps insertion order and is an
  association list with distinct keys: \<open>d[k] = v\<close> is \<open>AList.update\<close>, \<open>d.get(k)\<close> is
  \<open>map_of\<close>.
\<close>

type_synonym doc = "(string \<times> string option) list"

datatype pyval =
    PNone
  | PStr string
  | PDocs "doc list"
  | PChanges "(string \<times> string \<times> string) list"

type_synonym pydict = "(string \<times> pyval) list"

datatype pyerr =
    AttributeError
  | RuntimeError string
  | OtherException string

text \<open>Python truthiness (\<open>if x\<close>, \<open>not x\<close>).\<close>

fun truthy :: "pyval \<Rightarrow> bool" where
  "truthy PNone = False"
| "truthy (PStr s) = (s \<noteq> [])"
| "truthy (PDocs ds) = (ds \<noteq> [])"
| "truthy (PChanges cs) = (cs \<noteq> [])"

text \<open>\<open>d.get(k, default)\<close>.\<close>

definition dict_get :: "pydict \<Rightarrow> string \<Rightarrow> pyval \<Rightarrow> pyval" where
  "dict_get d k dflt = (case map_of d k of None \<Rightarrow> dflt | Some v \<Rightarrow> v)"

text \<open>
  \<open>str(v)\<close>: a string is itself and \<open>None\<close> prints as \<open>None\<close>. The printed form of a
  list or of a dictionary is the interpreter's \<open>repr\<close>; it is taken as the parameter
  \<open>r\<close>, so that every statement below holds whatever that form is.
\<close>

fun py_str :: "(pyval \<Rightarrow> string) \<Rightarrow> pyval \<Rightarrow> string" where
  "py_str r (PStr s) = s"
| "py_str r PNone = ''None''"
| "py_str r v = r v"

section \<open>change_detector.py\<close>

subsection \<open>\<open>ChangeDetector._diff\<close>\<close>

text \<open>
  The trimmed string form of one field of a dictionary:
  \<open>str(d.get(key, "")).strip()\<close>.
\<close>

definition field_norm :: "(pyval \<Rightarrow> string) \<Rightarrow> pydict \<Rightarrow> string \<Rightarrow> string" where
  "field_norm r d key = strip (py_str r (dict_get d key (PStr '''')))"

text \<open>
  \<open>all_keys = set(old.keys()) | set(new.keys())\<close>. The order in which Python iterates a
  set is not specified; the model fixes one. The result of \<open>_diff\<close> is a dictionary, and
  nothing below depends on the order of its entries.
\<close>

definition all_keys :: "pydict \<Rightarrow> pydict \<Rightarrow> string list" where
  "all_keys old new = remdups (map fst old @ map fst new)"

fun diff_loop ::
  "(pyval \<Rightarrow> string) \<Rightarrow> pydict \<Rightarrow> pydict \<Rightarrow> string list \<Rightarrow>
   (string \<times> string \<times> string) list \<Rightarrow> (string \<times> string \<times> string) list" where
  "diff_loop r old new [] changes = changes"
| "diff_loop r old new (key # keys) changes =
     (if startswith key ''_'' then diff_loop r old new keys changes
      else if key = ''detail_url'' then diff_loop r old new keys changes
      else
        let old_val = field_norm r old key;
            new_val = field_norm r new key
        in if old_val \<noteq> new_val
           then diff_loop r old new keys (AList.update key (old_val, new_val) changes)
           else diff_loop r old new keys changes)"

definition diff ::
  "(pyval \<Rightarrow> string) \<Rightarrow> pydict \<Rightarrow> pydict \<Rightarrow> (string \<times> string \<times> string) list" where
  "diff r old new = diff_loop r old new (all_keys old new) []"

subsection \<open>\<open>ChangeDetector.detect_changes\<close>\<close>

text \<open>
  The tender dictionaries are objects that \<open>detect_changes\<close> mutates in place, and the
  list it receives is an object of the caller. Both live in a heap: \<open>dicts\<close> maps the
  address of a dictionary to its content, \<open>lists\<close> maps the address of a list to the
  addresses of its elements. The four bucket lists are created by the call; the report
  holds them by value, as sequences of dictionary addresses. Its \<open>all\<close> entry is a
  reference, the address of a list.
\<close>

record heap =
  dicts :: "nat \<Rightarrow> pydict"
  lists :: "nat \<Rightarrow> nat list"

type_synonym memory = "string \<rightharpoonup> pydict"

record buckets =
  new :: "nat list"
  updated :: "nat list"
  status_changed :: "nat list"
  unchanged :: "nat list"

record summary =
  total_scraped :: nat
  new_count :: nat
  updated_count :: nat
  status_changed_count :: nat
  unchanged_count :: nat
  timestamp :: string

record report = buckets +
  all_ref :: nat
  summary :: summary

text \<open>
  \<open>tender.get("tender_no", "").strip()\<close>: a value that is not a string has no
  \<open>strip\<close> method, and the call raises \<open>AttributeError\<close>.
\<close>

definition get_tender_no :: "pydict \<Rightarrow> pyerr + string" where
  "get_tender_no tender =
     (case dict_get tender ''tender_no'' (PStr '''') of
        PStr s \<Rightarrow> Inr (strip s)
      | _ \<Rightarrow> Inl AttributeError)"

text \<open>
  The loop of \<open>detect_changes\<close> over the tenders. The dictionaries annotated before an
  exception stay annotated, so the store is returned on both outcomes.
\<close>

fun detect_loop ::
  "(pyval \<Rightarrow> string) \<Rightarrow> memory \<Rightarrow> nat list \<Rightarrow> (nat \<Rightarrow> pydict) \<Rightarrow> buckets \<Rightarrow>
   (nat \<Rightarrow> pydict) \<times> (pyerr + buckets)" where
  "detect_loop r mem [] st b = (st, Inr b)"
| "detect_loop r mem (a # as) st b =
     (case get_tender_no (st a) of
        Inl e \<Rightarrow> (st, Inl e)
      | Inr tender_no \<Rightarrow>
          if tender_no = [] then detect_loop r mem as st b
          else
            (case mem tender_no of
               None \<Rightarrow>
                 detect_loop r mem as
                   (st(a := AList.update ''_change_type'' (PStr ''NEW'') (st a)))
                   (b\<lparr>new := new b @ [a]\<rparr>)
             | Some old \<Rightarrow>
                 let changes = diff r old (st a) in
                 if changes = [] then
                   detect_loop r mem as
                     (st(a := AList.update ''_change_type'' (PStr ''UNCHANGED'') (st a)))
                     (b\<lparr>unchanged := unchanged b @ [a]\<rparr>)
                 else if ''status'' \<in> set (map fst changes) then
                   detect_loop r mem as
                     (st(a :=
                        AList.update ''_new_status'' (dict_get (st a) ''status'' (PStr ''''))
                          (AList.update ''_old_status'' (dict_get old ''status'' (PStr ''''))
                            (AList.update ''_change_type'' (PStr ''STATUS_CHANGED'') (st a)))))
                     (b\<lparr>status_changed := status_changed b @ [a]\<rparr>)
                 else
                   detect_loop r mem as
                     (st(a :=
                        AList.update ''_changes'' (PChanges changes)
                          (AList.update ''_change_type'' (PStr ''UPDATED'') (st a))))
                     (b\<lparr>updated := updated b @ [a]\<rparr>)))"

text \<open>
  \<open>detect_changes(tenders)\<close>: \<open>tenders\<close> is the address of the caller's list, \<open>now\<close> is
  \<open>datetime.now().isoformat()\<close>.
\<close>

definition detect_changes ::
  "(pyval \<Rightarrow> string) \<Rightarrow> string \<Rightarrow> memory \<Rightarrow> heap \<Rightarrow> nat \<Rightarrow> heap \<times> (pyerr + report)" where
  "detect_changes r now mem h tenders =
     (case detect_loop r mem (lists h tenders) (dicts h)
             \<lparr>new = [], updated = [], status_changed = [], unchanged = []\<rparr> of
        (st, Inl e) \<Rightarrow> (h\<lparr>dicts := st\<rparr>, Inl e)
      | (st, Inr b) \<Rightarrow>
          (h\<lparr>dicts := st\<rparr>,
           Inr \<lparr>new = new b, updated = updated b,
                status_changed = status_changed b, unchanged = unchanged b,
                all_ref = tenders,
                summary = \<lparr>total_scraped = length (lists h tenders),
                           new_count = length (new b),
                           updated_count = length (updated b),
                           status_changed_count = length (status_changed b),
                           unchanged_count = length (unchanged b),
                           timestamp = now\<rparr>\<rparr>))"

subsection \<open>The loop body for one tender\<close>

text \<open>
  The classification that one pass of the loop gives a tender dictionary
  (\<open>classify\<close>, \<open>None\<close> when the tender is skipped), the dictionary it leaves behind
  (\<open>annotate\<close>) and the bucket it appends to (\<open>bucket_add\<close>) restate the body of
  \<open>detect_loop\<close>; lemma \<open>detect_loop_step\<close> shows that the loop is their iteration.
  \<open>changed\<close> is the test \<open>_diff\<close> applies to one key.
\<close>

datatype change_type = NEW | UPDATED | STATUS_CHANGED | UNCHANGED

definition changed :: "(pyval \<Rightarrow> string) \<Rightarrow> pydict \<Rightarrow> pydict \<Rightarrow> string \<Rightarrow> bool" where
  "changed r old tender key =
     (\<not> startswith key ''_'' \<and> key \<noteq> ''detail_url'' \<and> field_norm r old key \<noteq> field_norm r tender key)"

definition classify :: "(pyval \<Rightarrow> string) \<Rightarrow> memory \<Rightarrow> pydict \<Rightarrow> change_type option" where
  "classify r mem tender =
     (case get_tender_no tender of
        Inl e \<Rightarrow> None
      | Inr tender_no \<Rightarrow>
          if tender_no = [] then None
          else (case mem tender_no of
                  None \<Rightarrow> Some NEW
                | Some old \<Rightarrow>
                    let changes = diff r old tender in
                    if changes = [] then Some UNCHANGED
                    else if ''status'' \<in> set (map fst changes) then Some STATUS_CHANGED
                    else Some UPDATED))"

definition annotate :: "(pyval \<Rightarrow> string) \<Rightarrow> memory \<Rightarrow> pydict \<Rightarrow> pydict" where
  "annotate r mem tender =
     (case get_tender_no tender of
        Inl e \<Rightarrow> tender
      | Inr tender_no \<Rightarrow>
          if tender_no = [] then tender
          else (case mem tender_no of
                  None \<Rightarrow> AList.update ''_change_type'' (PStr ''NEW'') tender
                | Some old \<Rightarrow>
                    let changes = diff r old tender in
                    if changes = [] then AList.update ''_change_type'' (PStr ''UNCHANGED'') tender
                    else if ''status'' \<in> set (map fst changes) then
                      AList.update ''_new_status'' (dict_get tender ''status'' (PStr ''''))
                        (AList.update ''_old_status'' (dict_get old ''status'' (PStr ''''))
                          (AList.update ''_change_type'' (PStr ''STATUS_CHANGED'') tender))
                    else
                      AList.update ''_changes'' (PChanges changes)
                        (AList.update ''_change_type'' (PStr ''UPDATED'') tender)))"

fun bucket_add :: "change_type option \<Rightarrow> nat \<Rightarrow> buckets \<Rightarrow> buckets" where
  "bucket_add None a b = b"
| "bucket_add (Some NEW) a b = b\<lparr>new := new b @ [a]\<rparr>"
| "bucket_add (Some UPDATED) a b = b\<lparr>updated := updated b @ [a]\<rparr>"
| "bucket_add (Some STATUS_CHANGED) a b = b\<lparr>status_changed := status_changed b @ [a]\<rparr>"
| "bucket_add (Some UNCHANGED) a b = b\<lparr>unchanged := unchanged b @ [a]\<rparr>"

definition bucket_filter ::
  "(pyval \<Rightarrow> string) \<Rightarrow> memory \<Rightarrow> (nat \<Rightarrow> pydict) \<Rightarrow> change_type \<Rightarrow> nat list \<Rightarrow> nat list" where
  "bucket_filter r mem st ct as = filter (\<lambda>a. classify r mem (st a) = Some ct) as"

definition annotated :: "(pyval \<Rightarrow> string) \<Rightarrow> memory \<Rightarrow> heap \<Rightarrow> nat \<Rightarrow> nat \<Rightarrow> pydict" where
  "annotated r mem h tenders x =
     (if x \<in> set (lists h tenders) then annotate r mem (dicts h x) else dicts h x)"

subsection \<open>Example data\<close>

text \<open>
  The scenario of the specification: the snapshot holds tender \<open>T-1\<close> as active; the run
  harvests \<open>T-1\<close> as closed and a new tender \<open>T-2\<close>. \<open>repr_fixed\<close> stands for
  the printed form of lists and dictionaries, which the examples never print.
\<close>

definition repr_fixed :: "pyval \<Rightarrow> string" where
  "repr_fixed v = ''[...]''"

definition snapshot_t1 :: memory where
  "snapshot_t1 = [''T-1'' \<mapsto> [(''status'', PStr ''Active''), (''title'', PStr ''X'')]]"

definition heap_t1_t2 :: heap where
  "heap_t1_t2 =
     \<lparr>dicts = (\<lambda>_. [])
        (0 := [(''tender_no'', PStr ''T-1''), (''status'', PStr ''Closed''), (''title'', PStr ''X'')],
         1 := [(''tender_no'', PStr ''T-2''), (''status'', PStr ''Active''), (''title'', PStr ''Y'')]),
      lists = (\<lambda>_. [])(0 := [0, 1])\<rparr>"

text \<open>
  \<open>snapshot_saved\<close> is an entry as \<open>update_memory\<close> writes it; \<open>heap_same\<close> holds the
  same tender with padded values and a navigation link.
\<close>

definition heap_same :: heap where
  "heap_same =
     \<lparr>dicts = (\<lambda>_. [])
        (0 := [(''tender_no'', PStr ''T-1''), (''status'', PStr '' Active''),
               (''title'', PStr ''X ''), (''detail_url'', PStr ''https://www.ireps.gov.in/a'')]),
      lists = (\<lambda>_. [])(0 := [0])\<rparr>"

definition snapshot_saved :: memory where
  "snapshot_saved =
     [''T-1'' \<mapsto> [(''tender_no'', PStr ''T-1''), (''status'', PStr ''Active''),
                  (''title'', PStr ''X''), (''_last_seen'', PStr ''2025-12-31T19:00:00'')]]"

subsection \<open>\<open>ChangeDetector.update_memory\<close>\<close>

text \<open>
  \<open>doc.get(key)\<close> on a document descriptor: \<open>None\<close> when the key is missing or holds
  \<open>None\<close>. \<open>truthy_url\<close> is the \<open>file_url\<close> of a descriptor when the test
  \<open>if doc.get("file_url")\<close> passes.
\<close>

definition doc_get :: "doc \<Rightarrow> string \<Rightarrow> string option" where
  "doc_get d k = (case map_of d k of None \<Rightarrow> None | Some v \<Rightarrow> v)"

definition truthy_url :: "doc \<Rightarrow> string option" where
  "truthy_url d = (case doc_get d ''file_url'' of None \<Rightarrow> None
                   | Some u \<Rightarrow> if u = [] then None else Some u)"

text \<open>
  \<open>seen_urls = {doc.get("file_url") for doc in old_docs if doc.get("file_url")}\<close> and the
  loop over \<open>new_docs\<close> that appends the documents whose URL was not seen.
\<close>

definition seen_urls_of :: "doc list \<Rightarrow> string set" where
  "seen_urls_of old_docs = set (List.map_filter truthy_url old_docs)"

fun merge_loop :: "doc list \<Rightarrow> doc list \<Rightarrow> string set \<Rightarrow> doc list" where
  "merge_loop [] merged seen_urls = merged"
| "merge_loop (d # new_docs) merged seen_urls =
     (case truthy_url d of
        Some u \<Rightarrow>
          if u \<notin> seen_urls then merge_loop new_docs (merged @ [d]) (insert u seen_urls)
          else merge_loop new_docs merged seen_urls
      | None \<Rightarrow> merge_loop new_docs merged seen_urls)"

text \<open>
  The two branches that merge \<open>attached_documents\<close>. The result is the value stored
  under the key, or \<open>None\<close> when the key is left as it is. With both values truthy the
  code iterates them and calls \<open>get\<close> on every element: a string or a dictionary in
  place of a list of descriptors raises \<open>AttributeError\<close> there.
\<close>

definition merge_attached :: "pyval \<Rightarrow> pyval \<Rightarrow> pyerr + pyval option" where
  "merge_attached old_docs new_docs =
     (if \<not> truthy new_docs \<and> truthy old_docs then Inr (Some old_docs)
      else if truthy new_docs \<and> truthy old_docs then
        (case (old_docs, new_docs) of
           (PDocs od, PDocs nd) \<Rightarrow> Inr (Some (PDocs (merge_loop nd od (seen_urls_of od))))
         | _ \<Rightarrow> Inl AttributeError)
      else Inr None)"

text \<open>
  The body of the loop of \<open>update_memory\<close> for one tender, on the snapshot held in
  memory. \<open>now\<close> is \<open>datetime.now().isoformat()\<close>. The tender is only read; the
  entry is built as a new dictionary, so values are enough here. The write of the
  snapshot file by \<open>save_memory\<close> after the loop is outside the model.
\<close>

definition existing_entry :: "memory \<Rightarrow> string \<Rightarrow> pydict" where
  "existing_entry mem tender_no = (case mem tender_no of None \<Rightarrow> [] | Some e \<Rightarrow> e)"

definition update_one :: "string \<Rightarrow> memory \<Rightarrow> pydict \<Rightarrow> pyerr + memory" where
  "update_one now mem tender =
     (case get_tender_no tender of
        Inl e \<Rightarrow> Inl e
      | Inr tender_no \<Rightarrow>
          if tender_no = [] then Inr mem
          else
            let clean0 = filter (\<lambda>(k, v). \<not> startswith k ''_'') tender;
                clean1 = AList.update ''_last_seen'' (PStr now) clean0;
                clean2 = AList.delete ''detail_url'' clean1;
                existing = existing_entry mem tender_no;
                new_doc_url = dict_get clean2 ''tender_doc_download_url'' PNone;
                old_doc_url = dict_get existing ''tender_doc_download_url'' PNone;
                clean3 = (if \<not> truthy new_doc_url \<and> truthy old_doc_url
                          then AList.update ''tender_doc_download_url'' old_doc_url clean2
                          else clean2);
                old_docs = dict_get existing ''attached_documents'' (PDocs []);
                new_docs = dict_get clean3 ''attached_documents'' (PDocs [])
            in (case merge_attached old_docs new_docs of
                  Inl e \<Rightarrow> Inl e
                | Inr None \<Rightarrow> Inr (mem(tender_no \<mapsto> clean3))
                | Inr (Some docs) \<Rightarrow>
                    Inr (mem(tender_no \<mapsto> AList.update ''attached_documents'' docs clean3))))"

fun update_memory :: "string \<Rightarrow> memory \<Rightarrow> pydict list \<Rightarrow> memory \<times> pyerr option" where
  "update_memory now mem [] = (mem, None)"
| "update_memory now mem (tender # tenders) =
     (case update_one now mem tender of
        Inl e \<Rightarrow> (mem, Some e)
      | Inr mem' \<Rightarrow> update_memory now mem' tenders)"

text \<open>
  \<open>appended\<close> is the list of documents that \<open>merge_loop\<close> appends, and \<open>final_docs\<close>
  the document list of the entry after one call for a tender whose list is \<open>nd\<close> when
  the entry held \<open>od\<close>; lemmas \<open>merge_loop_appended\<close> and \<open>update_one_docs\<close> relate them to
  the code.
\<close>

fun appended :: "doc list \<Rightarrow> string set \<Rightarrow> doc list" where
  "appended [] seen = []"
| "appended (d # ds) seen =
     (case truthy_url d of
        Some u \<Rightarrow> if u \<notin> seen then d # appended ds (insert u seen) else appended ds seen
      | None \<Rightarrow> appended ds seen)"


text \<open>
  Example data: the snapshot holds one document for \<open>T-1\<close>; the run finds the same
  document and a second one.
\<close>

definition doc_a :: doc where
  "doc_a = [(''file_name'', Some ''nit.pdf''),
            (''file_url'', Some ''https://www.ireps.gov.in/ireps/upload/nit.pdf''),
            (''description'', Some ''NIT'')]"

definition doc_b :: doc where
  "doc_b = [(''file_name'', Some ''boq.pdf''),
            (''file_url'', Some ''https://www.ireps.gov.in/ireps/upload/boq.pdf''),
            (''description'', Some ''BOQ'')]"

definition snapshot_docs :: memory where
  "snapshot_docs =
     [''T-1'' \<mapsto> [(''tender_no'', PStr ''T-1''), (''status'', PStr ''Active''),
                  (''attached_documents'', PDocs [doc_a]),
                  (''_last_seen'', PStr ''2025-12-31T19:00:00'')]]"

definition tender_docs :: pydict where
  "tender_docs =
     [(''tender_no'', PStr ''T-1''), (''status'', PStr ''Active''),
      (''detail_url'', PStr ''https://www.ireps.gov.in/a''),
      (''attached_documents'', PDocs [doc_a, doc_b]),
      (''_change_type'', PStr ''UPDATED'')]"

section \<open>scraper.py: the listing rows\<close>

text \<open>
  The column indices of \<open>locators.py\<close>. A row is given by what the page returns: the
  inner text of each cell (\<open>None\<close> when the cell is absent or reading it raises), the
  number of cells, and what the lookups in the Actions cell return (\<open>Inl\<close> when one of
  them raises). \<open>_safe_cell_text\<close> returns the trimmed text, or the empty string.
\<close>

definition COL_DEPTT :: nat where "COL_DEPTT = 0"
definition COL_TENDER_NO :: nat where "COL_TENDER_NO = 1"
definition COL_TENDER_TITLE :: nat where "COL_TENDER_TITLE = 2"
definition COL_STATUS :: nat where "COL_STATUS = 3"
definition COL_WORK_AREA :: nat where "COL_WORK_AREA = 4"
definition COL_DUE_DATE :: nat where "COL_DUE_DATE = 5"
definition COL_DUE_DAYS :: nat where "COL_DUE_DAYS = 6"
definition COL_ACTIONS :: nat where "COL_ACTIONS = 7"

definition safe_cell_text :: "(nat \<Rightarrow> string option) \<Rightarrow> nat \<Rightarrow> string" where
  "safe_cell_text cells index = (case cells index of None \<Rightarrow> '''' | Some text \<Rightarrow> strip text)"

text \<open>
  The Actions cell: how many \<open>View Tender Details\<close> images it holds, how many enclosing
  links, and the \<open>onclick\<close> and \<open>href\<close> attributes of the link (\<open>None\<close> when absent).
\<close>

record action_obs =
  view_detail_img_count :: nat
  parent_link_count :: nat
  onclick_attr :: "string option"
  href_attr :: "string option"

definition JUNK_TENDER_NOS :: "string list" where
  "JUNK_TENDER_NOS =
     [''Tender No'', ''tender no'', ''Search Tender'', ''Organization'',
      ''Select Date'', ''Tender Closing Date'', ''Tender Uploading Date'',
      ''Deptt./Rly. Unit'', ''Actions'']"

definition VALID_STATUSES :: "string list" where
  "VALID_STATUSES = [''published'', ''active'', ''closed'', ''cancelled'', ''expired'']"

text \<open>
  \<open>x or ""\<close> on an attribute, and the absolute form of a path. \<open>re_search\<close> stands
  for \<open>re.search\<close> with the \<open>postRequestNewWindow\<close> pattern, returning group 1 of
  the match; the regular expression engine is a parameter of the model.
\<close>

definition or_empty :: "string option \<Rightarrow> string" where
  "or_empty v = (case v of None \<Rightarrow> '''' | Some s \<Rightarrow> s)"

definition with_base :: "string \<Rightarrow> string" where
  "with_base path = (if startswith path ''http'' then path else ''https://www.ireps.gov.in'' @ path)"

definition detail_url_of :: "(string \<Rightarrow> string option) \<Rightarrow> action_obs \<Rightarrow> string" where
  "detail_url_of re_search act =
     (if view_detail_img_count act > 0 then
        if parent_link_count act > 0 then
          let onclick = or_empty (onclick_attr act);
              href = or_empty (href_attr act);
              detail_url =
                (if onclick \<noteq> [] then
                   (case re_search onclick of Some path \<Rightarrow> with_base path | None \<Rightarrow> '''')
                 else '''')
          in if detail_url = [] \<and> href \<noteq> [] \<and> href \<noteq> ''#'' \<and> strip href \<noteq> []
             then with_base href else detail_url
        else ''''
      else '''')"

text \<open>
  \<open>_parse_row_cells\<close>: \<open>Inr None\<close> is the return value \<open>None\<close>, \<open>Inl\<close> an exception of
  the lookups in the Actions cell, which the function does not catch.
\<close>

definition parse_row_cells ::
  "(string \<Rightarrow> string option) \<Rightarrow> (nat \<Rightarrow> string option) \<Rightarrow> nat \<Rightarrow> (pyerr + action_obs) \<Rightarrow>
   pyerr + pydict option" where
  "parse_row_cells re_search cells cell_count action =
     (let deptt = safe_cell_text cells COL_DEPTT;
          tender_no = safe_cell_text cells COL_TENDER_NO;
          tender_title = safe_cell_text cells COL_TENDER_TITLE;
          status = safe_cell_text cells COL_STATUS;
          work_area = safe_cell_text cells COL_WORK_AREA;
          due_date = safe_cell_text cells COL_DUE_DATE;
          due_days = safe_cell_text cells COL_DUE_DAYS
      in if tender_no = [] then Inr None
         else if length tender_no > 50 \<or> CHR 0x0A \<in> set tender_no then Inr None
         else if tender_no \<in> set JUNK_TENDER_NOS then Inr None
         else if status \<noteq> [] \<and> lower status \<notin> set VALID_STATUSES then Inr None
         else
           (case (if cell_count > COL_ACTIONS
                  then (case action of Inl e \<Rightarrow> Inl e
                        | Inr act \<Rightarrow> Inr (detail_url_of re_search act))
                  else Inr '''') of
              Inl e \<Rightarrow> Inl e
            | Inr detail_url \<Rightarrow>
                Inr (Some
                  [(''deptt_rly_unit'', PStr deptt),
                   (''tender_no'', PStr tender_no),
                   (''tender_title'', PStr tender_title),
                   (''status'', PStr status),
                   (''work_area'', PStr work_area),
                   (''due_date_time'', PStr due_date),
                   (''due_days'', PStr due_days),
                   (''detail_url'', PStr detail_url),
                   (''tender_type'', PStr ''''),
                   (''date_of_issue'', PStr ''''),
                   (''estimated_value'', PStr ''''),
                   (''emd_amount'', PStr ''''),
                   (''document_cost'', PStr ''''),
                   (''contact_officer'', PStr ''''),
                   (''corrigendum'', PStr ''''),
                   (''description'', PStr ''''),
                   (''tender_doc_download_url'', PNone),
                   (''attached_documents'', PDocs [])])))"

text \<open>
  Example data: a row of a Works tender with a given status text, and a search that
  finds nothing.
\<close>

definition no_match :: "string \<Rightarrow> string option" where
  "no_match s = None"

definition row_cells_example :: "string \<Rightarrow> nat \<Rightarrow> string option" where
  "row_cells_example status =
     (\<lambda>_. None)(0 := Some ''NR'', 1 := Some ''T-1'', 2 := Some ''Track renewal'',
                 3 := Some status, 4 := Some ''Works'', 5 := Some ''25/02/2026 14:00'',
                 6 := Some ''12'')"

section \<open>login.py: \<open>_perform_login\<close>\<close>

text \<open>
  What the browser, the CAPTCHA solver and the OTP receiver answer during one login
  attempt. Steps 1 to 3 (navigation, mobile number, CAPTCHA), the click on \<open>Get OTP\<close>,
  the two submissions of an OTP and the saving of the session either pass (\<open>None\<close>) or
  raise the given exception. \<open>webhook_otp_90\<close> and \<open>webhook_otp_60\<close> are the results of
  \<open>wait_for_otp(timeout=90)\<close> and \<open>wait_for_otp(timeout=60)\<close>; the two
  \<open>auth_heading\<close> fields say whether the login form is still shown after a submission.
\<close>

record attempt_env =
  steps_1_3 :: "pyerr option"
  get_otp_click :: "pyerr option"
  captcha_error_shown :: bool
  webhook_otp_90 :: "string option"
  submit_otp :: "pyerr option"
  auth_heading_after_submit :: bool
  webhook_otp_60 :: "string option"
  resubmit_otp :: "pyerr option"
  auth_heading_after_fresh :: bool
  save_session :: "pyerr option"

text \<open>
  The variables of the flow and its effects: the cached OTP, the number of clicks on
  \<open>Get OTP\<close>, the number of attempts begun, the OTP held by the cache file and whether
  the session was saved.
\<close>

record login_state =
  cached_otp :: "string option"
  otp_generations :: nat
  attempts_started :: nat
  otp_cache_file :: "string option"
  session_saved :: bool

datatype attempt_result = Success | Continue | Raise pyerr

text \<open>Truthiness of a value that is a string or \<open>None\<close>.\<close>

definition str_truthy :: "string option \<Rightarrow> bool" where
  "str_truthy v = (case v of None \<Rightarrow> False | Some s \<Rightarrow> s \<noteq> [])"

text \<open>
  Step 7, reached when the login form is gone: the session is saved, and an OTP taken
  from the cache is written to the cache again.
\<close>

definition login_success :: "attempt_env \<Rightarrow> bool \<Rightarrow> string \<Rightarrow> login_state \<Rightarrow> login_state \<times> attempt_result" where
  "login_success env used_cache otp st =
     (case save_session env of
        Some e \<Rightarrow> (st, Raise e)
      | None \<Rightarrow>
          (if used_cache
           then (st\<lparr>session_saved := True, otp_cache_file := Some otp\<rparr>, Success)
           else (st\<lparr>session_saved := True\<rparr>, Success)))"

text \<open>
  Step 6 and the check of the result. A rejected cached OTP is dropped and a fresh one is
  awaited and tried on the same page; every other rejection raises \<open>RuntimeError\<close>.
  The messages are shortened.
\<close>

definition login_verify :: "attempt_env \<Rightarrow> bool \<Rightarrow> string \<Rightarrow> login_state \<Rightarrow> login_state \<times> attempt_result" where
  "login_verify env used_cache otp st =
     (case submit_otp env of
        Some e \<Rightarrow> (st, Raise e)
      | None \<Rightarrow>
          if auth_heading_after_submit env then
            if used_cache then
              let st1 = st\<lparr>cached_otp := None, otp_cache_file := None\<rparr>;
                  fresh_otp = webhook_otp_60 env
              in if str_truthy fresh_otp \<and> fresh_otp \<noteq> Some otp then
                   let st2 = st1\<lparr>otp_cache_file := fresh_otp\<rparr> in
                   (case resubmit_otp env of
                      Some e \<Rightarrow> (st2, Raise e)
                    | None \<Rightarrow>
                        if \<not> auth_heading_after_fresh env
                        then login_success env used_cache (the fresh_otp) st2
                        else (st2, Raise (RuntimeError
                               ''Login failed - both cached OTP and fresh OTP were rejected'')))
                 else if str_truthy fresh_otp then
                   (st1\<lparr>otp_cache_file := fresh_otp\<rparr>,
                    Raise (RuntimeError ''Login failed - OTP rejected by IREPS''))
                 else
                   (st1, Raise (RuntimeError
                      ''Login failed - cached OTP expired and could not receive fresh OTP''))
            else (st, Raise (RuntimeError ''Login failed - OTP (from webhook) rejected by IREPS''))
          else login_success env used_cache otp st)"

text \<open>The body of the \<open>try\<close> block for one attempt.\<close>

definition login_attempt ::
  "nat \<Rightarrow> nat \<Rightarrow> attempt_env \<Rightarrow> login_state \<Rightarrow> login_state \<times> attempt_result" where
  "login_attempt max_login_attempts attempt env st =
     (let st1 = st\<lparr>attempts_started := attempts_started st + 1\<rparr> in
      case steps_1_3 env of
        Some e \<Rightarrow> (st1, Raise e)
      | None \<Rightarrow>
          (case get_otp_click env of
             Some e \<Rightarrow> (st1, Raise e)
           | None \<Rightarrow>
               let st2 = st1\<lparr>otp_generations := otp_generations st1 + 1\<rparr> in
               if captcha_error_shown env then
                 if attempt \<ge> max_login_attempts
                 then (st2, Raise (RuntimeError ''Login failed - CAPTCHA incorrect on all attempts''))
                 else (st2, Continue)
               else if str_truthy (cached_otp st2) then
                 login_verify env True (the (cached_otp st2)) st2
               else
                 let otp = webhook_otp_90 env in
                 if \<not> str_truthy otp
                 then (st2, Raise (RuntimeError ''OTP not received within 90 seconds''))
                 else login_verify env False (the otp) (st2\<lparr>otp_cache_file := otp\<rparr>)))"

text \<open>
  The loop \<open>for attempt in range(1, max_login_attempts + 1)\<close> with its handler: a
  \<open>RuntimeError\<close> is raised again on the last attempt and swallowed before; any other
  exception is not caught. After the loop the function raises.
\<close>

fun login_loop ::
  "nat \<Rightarrow> (nat \<Rightarrow> attempt_env) \<Rightarrow> nat list \<Rightarrow> login_state \<Rightarrow> login_state \<times> (pyerr + bool)" where
  "login_loop max_login_attempts envs [] st =
     (st, Inl (RuntimeError ''IREPS login failed after all attempts''))"
| "login_loop max_login_attempts envs (attempt # rest) st =
     (case login_attempt max_login_attempts attempt (envs attempt) st of
        (st', Success) \<Rightarrow> (st', Inr True)
      | (st', Continue) \<Rightarrow> login_loop max_login_attempts envs rest st'
      | (st', Raise (RuntimeError msg)) \<Rightarrow>
          if attempt \<ge> max_login_attempts then (st', Inl (RuntimeError msg))
          else login_loop max_login_attempts envs rest st'
      | (st', Raise e) \<Rightarrow> (st', Inl e))"

text \<open>
  \<open>_perform_login\<close>: \<open>loaded_otp\<close> is the result of \<open>_load_cached_otp()\<close>. Every caller
  uses the default \<open>max_login_attempts = 2\<close>.
\<close>

definition perform_login ::
  "nat \<Rightarrow> (nat \<Rightarrow> attempt_env) \<Rightarrow> string option \<Rightarrow> string option \<Rightarrow>
   login_state \<times> (pyerr + bool)" where
  "perform_login max_login_attempts envs loaded_otp cache_file =
     login_loop max_login_attempts envs [1 ..< max_login_attempts + 1]
       \<lparr>cached_otp = loaded_otp, otp_generations = 0, attempts_started = 0,
        otp_cache_file = cache_file, session_saved = False\<rparr>"

text \<open>
  An attempt whose verification fails: nothing raises on the way, the CAPTCHA is taken,
  and the login form is still shown after every submission. \<open>env_rejected\<close> is such an
  attempt, with an OTP from the webhook.
\<close>

definition verification_fails :: "attempt_env \<Rightarrow> bool" where
  "verification_fails env =
     (steps_1_3 env = None \<and> get_otp_click env = None \<and> \<not> captcha_error_shown env \<and>
      submit_otp env = None \<and> auth_heading_after_submit env \<and>
      resubmit_otp env = None \<and> auth_heading_after_fresh env)"

definition env_rejected :: attempt_env where
  "env_rejected =
     \<lparr>steps_1_3 = None, get_otp_click = None, captcha_error_shown = False,
      webhook_otp_90 = Some ''123456'', submit_otp = None, auth_heading_after_submit = True,
      webhook_otp_60 = None, resubmit_otp = None, auth_heading_after_fresh = True,
      save_session = None\<rparr>"

section \<open>otp_receiver.py\<close>












section \<open>scraper.py: the enrichment stage\<close>

text \<open>\<open>config.MAX_RETRIES\<close> and the limit of the circuit breaker in \<open>_scrape_details\<close>.\<close>

definition MAX_RETRIES :: nat where "MAX_RETRIES = 3"

definition MAX_CONSECUTIVE_FAILURES :: nat where "MAX_CONSECUTIVE_FAILURES = 3"

text \<open>
  How one click on the \<open>View Tender Details\<close> icon ends: the detail page is read
  (the extracted fields, and the result of \<open>_extract_documents\<close> or \<open>None\<close> when that
  part raises), the login form appears and the function returns, an exception whose
  message contains \<open>closed\<close> or \<open>target\<close> makes the function return, or any other
  exception leaves the attempt failed.
\<close>

datatype click_outcome =
    Extracted pydict "(pyval \<times> pyval) option"
  | AuthRedirect
  | Crashed
  | Failed

text \<open>
  A row of the listing table below the header: fewer than seven cells, a row whose
  reading raises (the handler of the row logs and goes on), or a row with the text of
  its work area and tender number cells, the number of \<open>View Tender Details\<close> icons in
  its Actions cell, and the outcome of each successive click. A listing page has no
  table, raises while the table is looked up, or shows a table.
\<close>

datatype listing_row =
    ShortRow
  | RowRaises
  | Row string string nat "nat \<Rightarrow> click_outcome"

datatype listing_page =
    NoTable
  | PageRaises pyerr
  | Table "listing_row list"

text \<open>
  The listing as the stage meets it: whether the navigation back to the listing raises,
  the page shown then, and the pages that \<open>_click_next_page\<close> reaches in turn; it
  returns \<open>False\<close> when the list is used up. The listing is taken to have finitely
  many pages.
\<close>

record sd_env =
  navigation :: "pyerr option"
  first_page :: listing_page
  next_pages :: "listing_page list"

text \<open>
  The variables of \<open>_scrape_details\<close>: the tender dictionaries, which the stage writes
  in place, the \<open>pending\<close> dictionary from tender number to the address of the tender,
  and the three counters. \<open>enriched_refs\<close> is not a variable of the source: it lists the
  tenders counted by \<open>enriched += 1\<close>, so that statements can name them.
\<close>

record sd_state =
  sd_dicts :: "nat \<Rightarrow> pydict"
  pending :: "(string \<times> nat) list"
  enriched :: nat
  failed :: nat
  consecutive_failures :: nat
  enriched_refs :: "nat list"

text \<open>
  How a loop ends: it runs on, the function returns \<open>tenders\<close> from inside the loop, or
  an exception leaves the function.
\<close>

datatype flow = Next sd_state | Returned sd_state | Raised pyerr sd_state

text \<open>
  \<open>dict.setdefault\<close>, the two calls that mark a tender with empty enrichment fields,
  \<open>tender.update({k: v for k, v in detail_data.items() if v})\<close>, and the writes after a
  successful extraction.
\<close>

definition setdefault :: "string \<Rightarrow> pyval \<Rightarrow> pydict \<Rightarrow> pydict" where
  "setdefault k v d = (if map_of d k = None then AList.update k v d else d)"

definition mark_empty :: "pydict \<Rightarrow> pydict" where
  "mark_empty tender =
     setdefault ''attached_documents'' (PDocs [])
       (setdefault ''tender_doc_download_url'' PNone tender)"

fun update_truthy :: "pydict \<Rightarrow> pydict \<Rightarrow> pydict" where
  "update_truthy [] tender = tender"
| "update_truthy ((k, v) # detail_data) tender =
     update_truthy detail_data (if truthy v then AList.update k v tender else tender)"

definition apply_extraction :: "pydict \<Rightarrow> (pyval \<times> pyval) option \<Rightarrow> pydict \<Rightarrow> pydict" where
  "apply_extraction detail_data doc_data tender =
     (let t1 = update_truthy detail_data tender in
      case doc_data of
        Some (url, docs) \<Rightarrow>
          AList.update ''attached_documents'' docs
            (AList.update ''tender_doc_download_url'' url t1)
      | None \<Rightarrow> mark_empty t1)"

text \<open>The loop \<open>for retry in range(config.MAX_RETRIES)\<close> for the tender at address \<open>a\<close>.\<close>

datatype retry_result = Succeeded | Exhausted | ReturnTenders

fun retry_loop ::
  "(nat \<Rightarrow> click_outcome) \<Rightarrow> nat list \<Rightarrow> nat \<Rightarrow> (nat \<Rightarrow> pydict) \<Rightarrow>
   (nat \<Rightarrow> pydict) \<times> retry_result" where
  "retry_loop clicks [] a ds = (ds, Exhausted)"
| "retry_loop clicks (retry # retries) a ds =
     (case clicks retry of
        Extracted detail_data doc_data \<Rightarrow>
          (ds(a := apply_extraction detail_data doc_data (ds a)), Succeeded)
      | AuthRedirect \<Rightarrow> (ds, ReturnTenders)
      | Crashed \<Rightarrow> (ds, ReturnTenders)
      | Failed \<Rightarrow> retry_loop clicks retries a ds)"

text \<open>The body of the row loop below the check of the circuit breaker.\<close>

definition process_row :: "listing_row \<Rightarrow> sd_state \<Rightarrow> flow" where
  "process_row row st =
     (case row of
        ShortRow \<Rightarrow> Next st
      | RowRaises \<Rightarrow> Next st
      | Row work_area_text tender_no_text view_icon_count clicks \<Rightarrow>
          if lower (strip work_area_text) \<noteq> ''works'' then Next st
          else
            let tender_no = strip tender_no_text in
            (case map_of (pending st) tender_no of
               None \<Rightarrow> Next st
             | Some a \<Rightarrow>
                 if view_icon_count = 0 then
                   Next (st\<lparr>sd_dicts := (sd_dicts st)
                              (a := AList.update ''attached_documents'' (PDocs [])
                                      (AList.update ''tender_doc_download_url'' PNone
                                         (sd_dicts st a))),
                            pending := AList.delete tender_no (pending st),
                            failed := failed st + 1,
                            consecutive_failures := consecutive_failures st + 1\<rparr>)
                 else
                   (case retry_loop clicks [0 ..< MAX_RETRIES] a (sd_dicts st) of
                      (ds, ReturnTenders) \<Rightarrow> Returned (st\<lparr>sd_dicts := ds\<rparr>)
                    | (ds, Succeeded) \<Rightarrow>
                        Next (st\<lparr>sd_dicts := ds,
                                 pending := AList.delete tender_no (pending st),
                                 enriched := enriched st + 1,
                                 consecutive_failures := 0,
                                 enriched_refs := enriched_refs st @ [a]\<rparr>)
                    | (ds, Exhausted) \<Rightarrow>
                        Next (st\<lparr>sd_dicts := ds(a := mark_empty (ds a)),
                                 pending := AList.delete tender_no (pending st),
                                 failed := failed st + 1,
                                 consecutive_failures := consecutive_failures st + 1\<rparr>))))"

text \<open>
  The row loop with the check of the circuit breaker at the top of every iteration, and
  the \<open>while pending\<close> loop over the pages with its checks after the rows.
\<close>

fun scan_rows :: "listing_row list \<Rightarrow> sd_state \<Rightarrow> flow" where
  "scan_rows [] st = Next st"
| "scan_rows (row # rows) st =
     (if consecutive_failures st \<ge> MAX_CONSECUTIVE_FAILURES then Next st
      else (case process_row row st of
              Next st' \<Rightarrow> scan_rows rows st'
            | Returned st' \<Rightarrow> Returned st'
            | Raised e st' \<Rightarrow> Raised e st'))"

fun scan_pages :: "listing_page list \<Rightarrow> sd_state \<Rightarrow> flow" where
  "scan_pages [] st = Next st"
| "scan_pages (page # pages) st =
     (if pending st = [] then Next st
      else
        (case page of
           PageRaises e \<Rightarrow> Raised e st
         | NoTable \<Rightarrow> Next st
         | Table rows \<Rightarrow>
             (case scan_rows rows st of
                Next st' \<Rightarrow>
                  if consecutive_failures st' \<ge> MAX_CONSECUTIVE_FAILURES then Next st'
                  else if pending st' = [] then Next st'
                  else scan_pages pages st'
              | Returned st' \<Rightarrow> Returned st'
              | Raised e st' \<Rightarrow> Raised e st')))"

text \<open>
  The final loop over the tenders left in \<open>pending\<close>, the construction of \<open>pending\<close>,
  and \<open>_scrape_details\<close>. Every \<open>return\<close> of the function returns its argument
  \<open>tenders\<close>, here the address of the list.
\<close>

fun mark_remaining :: "(string \<times> nat) list \<Rightarrow> sd_state \<Rightarrow> sd_state" where
  "mark_remaining [] st = st"
| "mark_remaining ((tno, a) # rest) st =
     mark_remaining rest
       (st\<lparr>sd_dicts := (sd_dicts st)(a := mark_empty (sd_dicts st a)),
           failed := failed st + 1\<rparr>)"

fun build_pending ::
  "(nat \<Rightarrow> pydict) \<Rightarrow> nat list \<Rightarrow> (string \<times> nat) list \<Rightarrow> pyerr + (string \<times> nat) list" where
  "build_pending ds [] pend = Inr pend"
| "build_pending ds (t # ts) pend =
     (case get_tender_no (ds t) of
        Inl e \<Rightarrow> Inl e
      | Inr tno \<Rightarrow> build_pending ds ts (if tno \<noteq> [] then AList.update tno t pend else pend))"

definition sd_init :: "heap \<Rightarrow> (string \<times> nat) list \<Rightarrow> sd_state" where
  "sd_init h pend =
     \<lparr>sd_dicts = dicts h, pending = pend, enriched = 0, failed = 0,
      consecutive_failures = 0, enriched_refs = []\<rparr>"

definition scrape_details :: "bool \<Rightarrow> sd_env \<Rightarrow> heap \<Rightarrow> nat \<Rightarrow> sd_state \<times> (pyerr + nat)" where
  "scrape_details has_context env h tenders =
     (if \<not> has_context then (sd_init h [], Inr tenders)
      else
        (case build_pending (dicts h) (lists h tenders) [] of
           Inl e \<Rightarrow> (sd_init h [], Inl e)
         | Inr pend \<Rightarrow>
             if pend = [] then (sd_init h pend, Inr tenders)
             else
               (case navigation env of
                  Some e \<Rightarrow> (sd_init h pend, Inl e)
                | None \<Rightarrow>
                    (case scan_pages (first_page env # next_pages env) (sd_init h pend) of
                       Raised e st \<Rightarrow> (st, Inl e)
                     | Returned st \<Rightarrow> (st, Inr tenders)
                     | Next st \<Rightarrow> (mark_remaining (pending st) st, Inr tenders)))))"

text \<open>
  \<open>scrape_tenders\<close>: \<open>listing\<close> is the outcome of phase 1. An empty listing returns a
  new empty list; an exception of phase 2 is caught and the listing is returned.
\<close>

datatype list_result = NewEmptyList | ListRef nat

definition scrape_tenders ::
  "bool \<Rightarrow> sd_env \<Rightarrow> heap \<Rightarrow> (pyerr + nat) \<Rightarrow> heap \<times> (pyerr + list_result)" where
  "scrape_tenders has_context env h listing =
     (case listing of
        Inl e \<Rightarrow> (h, Inl e)
      | Inr listing_tenders \<Rightarrow>
          if lists h listing_tenders = [] then (h, Inr NewEmptyList)
          else
            (case scrape_details has_context env h listing_tenders of
               (st, Inr enriched_tenders) \<Rightarrow> (h\<lparr>dicts := sd_dicts st\<rparr>, Inr (ListRef enriched_tenders))
             | (st, Inl e) \<Rightarrow> (h\<lparr>dicts := sd_dicts st\<rparr>, Inr (ListRef listing_tenders))))"

text \<open>
  A tender as \<open>_parse_row_cells\<close> builds it has both enrichment fields, empty.
  \<open>untouched a d0\<close> holds in a state when the tender at \<open>a\<close> was counted as enriched or
  still is \<open>d0\<close>.
\<close>

definition unenriched :: "pydict \<Rightarrow> bool" where
  "unenriched tender =
     (map_of tender ''tender_doc_download_url'' = Some PNone \<and>
      map_of tender ''attached_documents'' = Some (PDocs []))"

definition has_enrichment_fields :: "pydict \<Rightarrow> bool" where
  "has_enrichment_fields tender =
     (map_of tender ''tender_doc_download_url'' \<noteq> None \<and>
      map_of tender ''attached_documents'' \<noteq> None)"

fun flow_state :: "flow \<Rightarrow> sd_state" where
  "flow_state (Next st) = st"
| "flow_state (Returned st) = st"
| "flow_state (Raised e st) = st"

definition untouched :: "nat \<Rightarrow> pydict \<Rightarrow> sd_state \<Rightarrow> bool" where
  "untouched a d0 st = (a \<in> set (enriched_refs st) \<or> sd_dicts st a = d0)"

text \<open>
  \<open>add_failed\<close> raises the cumulative counter \<open>failed\<close>; \<open>flow_map\<close> applies a change
  of the state to the outcome of a loop. \<open>scan_rows_without_breaker\<close> is the row loop
  with the check of the circuit breaker left out, for comparison.
\<close>

fun flow_map :: "(sd_state \<Rightarrow> sd_state) \<Rightarrow> flow \<Rightarrow> flow" where
  "flow_map f (Next st) = Next (f st)"
| "flow_map f (Returned st) = Returned (f st)"
| "flow_map f (Raised e st) = Raised e (f st)"

definition add_failed :: "nat \<Rightarrow> sd_state \<Rightarrow> sd_state" where
  "add_failed n st = st\<lparr>failed := failed st + n\<rparr>"

fun scan_rows_without_breaker :: "listing_row list \<Rightarrow> sd_state \<Rightarrow> flow" where
  "scan_rows_without_breaker [] st = Next st"
| "scan_rows_without_breaker (row # rows) st =
     (case process_row row st of
        Next st' \<Rightarrow> scan_rows_without_breaker rows st'
      | Returned st' \<Rightarrow> Returned st'
      | Raised e st' \<Rightarrow> Raised e st')"

text \<open>
  \<open>scan_pages_without_breaker\<close> is the page loop with both checks of the circuit
  breaker left out (the one before each row and the one after each page), for
  comparison. \<open>below_limit\<close> says of an outcome that the loop did not end with the
  counter of consecutive failures at the limit.
\<close>

fun scan_pages_without_breaker :: "listing_page list \<Rightarrow> sd_state \<Rightarrow> flow" where
  "scan_pages_without_breaker [] st = Next st"
| "scan_pages_without_breaker (page # pages) st =
     (if pending st = [] then Next st
      else
        (case page of
           PageRaises e \<Rightarrow> Raised e st
         | NoTable \<Rightarrow> Next st
         | Table rows \<Rightarrow>
             (case scan_rows_without_breaker rows st of
                Next st' \<Rightarrow>
                  if pending st' = [] then Next st'
                  else scan_pages_without_breaker pages st'
              | Returned st' \<Rightarrow> Returned st'
              | Raised e st' \<Rightarrow> Raised e st')))"

definition below_limit :: "flow \<Rightarrow> bool" where
  "below_limit f =
     (case f of Next st \<Rightarrow> consecutive_failures st < MAX_CONSECUTIVE_FAILURES | _ \<Rightarrow> True)"

text \<open>
  Example data: two harvested tenders; a listing whose first page shows \<open>T-1\<close> with
  every click failing and whose second page raises; six pending tenders with rows in
  which failures and successes alternate, and rows that begin with three failures.
\<close>

definition heap_harvested :: heap where
  "heap_harvested =
     \<lparr>dicts = (\<lambda>_. [])
        (0 := [(''tender_no'', PStr ''T-1''), (''status'', PStr ''Active''),
               (''work_area'', PStr ''Works''), (''detail_url'', PStr ''''),
               (''tender_doc_download_url'', PNone), (''attached_documents'', PDocs [])],
         1 := [(''tender_no'', PStr ''T-2''), (''status'', PStr ''Active''),
               (''work_area'', PStr ''Works''), (''detail_url'', PStr ''''),
               (''tender_doc_download_url'', PNone), (''attached_documents'', PDocs [])]),
      lists = (\<lambda>_. [])(0 := [0, 1])\<rparr>"

definition env_page_breaks :: sd_env where
  "env_page_breaks =
     \<lparr>navigation = None,
      first_page = Table [Row ''Works'' ''T-1'' 1 (\<lambda>_. Failed)],
      next_pages = [PageRaises (OtherException ''Timeout 30000ms exceeded'')]\<rparr>"

definition clicks_ok :: "nat \<Rightarrow> click_outcome" where
  "clicks_ok retry =
     (if retry = 0 then Failed
      else Extracted [(''tender_type'', PStr ''Open'')] (Some (PNone, PDocs [])))"

definition clicks_fail :: "nat \<Rightarrow> click_outcome" where
  "clicks_fail retry = Failed"

definition st_six :: sd_state where
  "st_six =
     \<lparr>sd_dicts = (\<lambda>_. []),
      pending = [(''T-1'', 1), (''T-2'', 2), (''T-3'', 3), (''T-4'', 4), (''T-5'', 5), (''T-6'', 6)],
      enriched = 0, failed = 0, consecutive_failures = 0, enriched_refs = []\<rparr>"

definition rows_interleaved :: "listing_row list" where
  "rows_interleaved =
     [Row ''Works'' ''T-1'' 0 clicks_fail, Row ''Works'' ''T-2'' 1 clicks_ok,
      Row ''Works'' ''T-3'' 1 clicks_fail, Row ''Works'' ''T-4'' 1 clicks_fail,
      Row ''Works'' ''T-5'' 1 clicks_ok, Row ''Works'' ''T-6'' 0 clicks_fail]"

definition rows_consecutive :: "listing_row list" where
  "rows_consecutive =
     [Row ''Works'' ''T-1'' 0 clicks_fail, Row ''Works'' ''T-3'' 1 clicks_fail,
      Row ''Works'' ''T-4'' 1 clicks_fail, Row ''Works'' ''T-2'' 1 clicks_ok,
      Row ''Works'' ''T-5'' 1 clicks_ok]"

text \<open>
  Two listing pages: on the first \<open>T-1\<close> fails and a short row follows, on the second
  \<open>T-2\<close> succeeds.
\<close>

definition pages_two :: "listing_page list" where
  "pages_two =
     [Table [Row ''Works'' ''T-1'' 0 clicks_fail, ShortRow],
      Table [Row ''Works'' ''T-2'' 1 clicks_ok]]"

section \<open>Properties of change_detector.py\<close>

subsection \<open>\<open>_diff\<close> as a filter over the keys\<close>

lemma update_absent: "k \<notin> fst ` set al \<Longrightarrow> AList.update k v al = al @ [(k, v)]"
  by (induction al) auto

lemma diff_loop_eq:
  "distinct ks \<Longrightarrow> set ks \<inter> fst ` set acc = {} \<Longrightarrow>
   diff_loop r old tender ks acc =
     acc @ map (\<lambda>k. (k, field_norm r old k, field_norm r tender k)) (filter (changed r old tender) ks)"
proof (induction ks arbitrary: acc)
  case Nil
  then show ?case by simp
next
  case (Cons k ks)
  show ?case
  proof (cases "changed r old tender k")
    case True
    have abs: "k \<notin> fst ` set acc" using Cons.prems by auto
    have "set ks \<inter> fst ` set (AList.update k (field_norm r old k, field_norm r tender k) acc) = {}"
      using Cons.prems by (auto simp: update_absent[OF abs])
    then show ?thesis using True Cons.prems Cons.IH
      by (simp add: changed_def Let_def update_absent[OF abs])
  next
    case False
    have "set ks \<inter> fst ` set acc = {}" using Cons.prems by auto
    then show ?thesis using False Cons.prems Cons.IH
      by (auto simp add: changed_def Let_def)
  qed
qed

lemma diff_eq:
  "diff r old tender =
     map (\<lambda>k. (k, field_norm r old k, field_norm r tender k))
       (filter (changed r old tender) (all_keys old tender))"
  by (simp add: diff_def diff_loop_eq all_keys_def)

lemma diff_keys: "map fst (diff r old tender) = filter (changed r old tender) (all_keys old tender)"
  by (simp add: diff_eq comp_def)

lemma changed_in_keys:
  assumes "changed r old tender k" shows "k \<in> set (all_keys old tender)"
proof (rule ccontr)
  assume "k \<notin> set (all_keys old tender)"
  then have "map_of old k = None" "map_of tender k = None"
    by (auto simp: all_keys_def map_of_eq_None_iff image_iff)
  then have "field_norm r old k = field_norm r tender k"
    by (simp add: field_norm_def dict_get_def)
  with assms show False by (simp add: changed_def)
qed

lemma diff_mem_iff: "k \<in> set (map fst (diff r old tender)) \<longleftrightarrow> changed r old tender k"
  using changed_in_keys by (auto simp: diff_keys)

lemma diff_empty_iff: "diff r old tender = [] \<longleftrightarrow> (\<forall>k. \<not> changed r old tender k)"
proof -
  have "diff r old tender = [] \<longleftrightarrow> (\<forall>k. k \<notin> set (map fst (diff r old tender)))"
    by (cases "diff r old tender") auto
  then show ?thesis by (simp only: diff_mem_iff)
qed

subsection \<open>Annotations do not change the comparison\<close>

lemma internal_neq: "startswith k ''_'' \<Longrightarrow> \<not> startswith key ''_'' \<Longrightarrow> key \<noteq> k"
  by auto

lemma field_norm_update:
  "key \<noteq> k \<Longrightarrow> field_norm r (AList.update k v d) key = field_norm r d key"
  by (simp add: field_norm_def dict_get_def update_conv')

lemma dict_get_update:
  "key \<noteq> k \<Longrightarrow> dict_get (AList.update k v d) key x = dict_get d key x"
  by (simp add: dict_get_def update_conv')

lemma changed_update:
  "startswith k ''_'' \<Longrightarrow> changed r old (AList.update k v d) = changed r old d"
  by (rule ext) (auto simp: changed_def field_norm_update[OF internal_neq])

lemma not_changed_internal: "startswith k ''_'' \<Longrightarrow> \<not> changed r old d k"
  by (simp add: changed_def)

lemma filter_keys_update:
  assumes "\<not> P k"
  shows "filter P (map fst (AList.update k v d)) = filter P (map fst d)"
  using assms by (simp add: update_keys)

lemma diff_update:
  assumes "startswith k ''_''"
  shows "diff r old (AList.update k v d) = diff r old d"
proof -
  let ?P = "changed r old d"
  have "filter ?P (all_keys old (AList.update k v d)) = filter ?P (all_keys old d)"
    unfolding all_keys_def
    by (simp only: remdups_filter[symmetric] filter_append
        filter_keys_update[of "changed r old d" k, OF not_changed_internal[OF assms]])
  then show ?thesis
    by (simp add: diff_eq changed_update[OF assms] field_norm_update[OF internal_neq[OF assms]]
        changed_def cong: map_cong)
qed

lemma tender_no_not_internal: "startswith k ''_'' \<Longrightarrow> ''tender_no'' \<noteq> k"
  by (auto simp: startswith_def)

lemma status_not_internal: "startswith k ''_'' \<Longrightarrow> ''status'' \<noteq> k"
  by (auto simp: startswith_def)

lemma get_tender_no_update:
  "startswith k ''_'' \<Longrightarrow> get_tender_no (AList.update k v d) = get_tender_no d"
  by (simp add: get_tender_no_def dict_get_update[OF tender_no_not_internal])

lemma sw1: "startswith ''_change_type'' ''_''" by (simp add: startswith_def)
lemma sw2: "startswith ''_old_status'' ''_''" by (simp add: startswith_def)
lemma sw3: "startswith ''_new_status'' ''_''" by (simp add: startswith_def)
lemma sw4: "startswith ''_changes'' ''_''" by (simp add: startswith_def)

lemmas internal_simps =
  get_tender_no_update[OF sw1] get_tender_no_update[OF sw2]
  get_tender_no_update[OF sw3] get_tender_no_update[OF sw4]
  diff_update[OF sw1] diff_update[OF sw2] diff_update[OF sw3] diff_update[OF sw4]
  dict_get_update[OF status_not_internal[OF sw1]] dict_get_update[OF status_not_internal[OF sw2]]
  dict_get_update[OF status_not_internal[OF sw3]] dict_get_update[OF status_not_internal[OF sw4]]

lemma get_tender_no_annotate: "get_tender_no (annotate r mem d) = get_tender_no d"
  by (simp add: annotate_def Let_def internal_simps split: sum.splits option.splits)

lemma diff_annotate: "diff r old (annotate r mem d) = diff r old d"
  by (simp add: annotate_def Let_def internal_simps split: sum.splits option.splits)

lemma status_annotate: "dict_get (annotate r mem d) ''status'' x = dict_get d ''status'' x"
  by (simp add: annotate_def Let_def internal_simps split: sum.splits option.splits)

lemma classify_annotate: "classify r mem (annotate r mem d) = classify r mem d"
  by (simp add: classify_def get_tender_no_annotate diff_annotate
      cong: if_cong option.case_cong sum.case_cong)

lemma update_twice: "AList.update k v (AList.update k v d) = AList.update k v d"
  by (simp add: update_triv update_conv')

lemma annotate_idem: "annotate r mem (annotate r mem d) = annotate r mem d"
proof -
  have "annotate r mem (annotate r mem d) =
        (case get_tender_no d of
           Inl e \<Rightarrow> annotate r mem d
         | Inr tender_no \<Rightarrow>
             if tender_no = [] then annotate r mem d
             else (case mem tender_no of
                  None \<Rightarrow> AList.update ''_change_type'' (PStr ''NEW'') (annotate r mem d)
                | Some old \<Rightarrow>
                    let changes = diff r old d in
                    if changes = [] then AList.update ''_change_type'' (PStr ''UNCHANGED'') (annotate r mem d)
                    else if ''status'' \<in> set (map fst changes) then
                      AList.update ''_new_status'' (dict_get d ''status'' (PStr ''''))
                        (AList.update ''_old_status'' (dict_get old ''status'' (PStr ''''))
                          (AList.update ''_change_type'' (PStr ''STATUS_CHANGED'') (annotate r mem d)))
                    else
                      AList.update ''_changes'' (PChanges changes)
                        (AList.update ''_change_type'' (PStr ''UPDATED'') (annotate r mem d))))"
    by (subst annotate_def)
      (simp add: get_tender_no_annotate diff_annotate status_annotate
        cong: if_cong option.case_cong sum.case_cong)
  also have "\<dots> = annotate r mem d"
    by (auto simp: annotate_def Let_def update_triv update_conv' split: sum.splits option.splits)
  finally show ?thesis .
qed

lemma detect_loop_step:
  "detect_loop r mem (a # as) st b =
     (case get_tender_no (st a) of
        Inl e \<Rightarrow> (st, Inl e)
      | Inr t \<Rightarrow> detect_loop r mem as (st(a := annotate r mem (st a)))
                   (bucket_add (classify r mem (st a)) a b))"
  by (simp add: classify_def annotate_def Let_def split: sum.splits option.splits)

lemma bucket_add_fields:
  "new (bucket_add c a b) = new b @ (if c = Some NEW then [a] else [])"
  "updated (bucket_add c a b) = updated b @ (if c = Some UPDATED then [a] else [])"
  "status_changed (bucket_add c a b) = status_changed b @ (if c = Some STATUS_CHANGED then [a] else [])"
  "unchanged (bucket_add c a b) = unchanged b @ (if c = Some UNCHANGED then [a] else [])"
  by (cases c; (cases "the c")?; simp)+

lemma detect_loop_ok:
  "\<forall>a\<in>set as. \<exists>s. get_tender_no (st a) = Inr s \<Longrightarrow>
   detect_loop r mem as st b =
     (\<lambda>x. if x \<in> set as then annotate r mem (st x) else st x,
      Inr \<lparr>new = new b @ bucket_filter r mem st NEW as,
           updated = updated b @ bucket_filter r mem st UPDATED as,
           status_changed = status_changed b @ bucket_filter r mem st STATUS_CHANGED as,
           unchanged = unchanged b @ bucket_filter r mem st UNCHANGED as\<rparr>)"
proof (induction as arbitrary: st b)
  case Nil
  then show ?case by (simp add: bucket_filter_def)
next
  case (Cons a as)
  let ?st = "st(a := annotate r mem (st a))"
  from Cons.prems obtain s where s: "get_tender_no (st a) = Inr s" by auto
  have pre: "\<forall>x\<in>set as. \<exists>s. get_tender_no (?st x) = Inr s"
    using Cons.prems by (auto simp: get_tender_no_annotate)
  have cl: "\<And>x. classify r mem (?st x) = classify r mem (st x)"
    by (simp add: classify_annotate)
  have bf: "\<And>ct. bucket_filter r mem ?st ct as = bucket_filter r mem st ct as"
    unfolding bucket_filter_def using cl by simp
  have st: "(\<lambda>x. if x \<in> set as then annotate r mem (?st x) else ?st x) =
            (\<lambda>x. if x \<in> set (a # as) then annotate r mem (st x) else st x)"
    by (rule ext) (simp add: annotate_idem)
  show ?case
    unfolding detect_loop_step s sum.case Cons.IH[OF pre] bf st
    by (simp add: bucket_add_fields bucket_filter_def)
qed

lemma detect_loop_err:
  "a \<in> set as \<Longrightarrow> get_tender_no (st a) = Inl e \<Longrightarrow>
   \<exists>st' e'. detect_loop r mem as st b = (st', Inl e')"
proof (induction as arbitrary: st b)
  case Nil
  then show ?case by simp
next
  case (Cons x as)
  show ?case
  proof (cases "get_tender_no (st x)")
    case (Inl e0)
    then show ?thesis by (simp only: detect_loop_step sum.case) blast
  next
    case (Inr s)
    then have "x \<noteq> a" using Cons.prems by auto
    then have "a \<in> set as" "get_tender_no ((st(x := annotate r mem (st x))) a) = Inl e"
      using Cons.prems by auto
    from Cons.IH[of "st(x := annotate r mem (st x))", OF this]
    show ?thesis by (simp only: detect_loop_step Inr sum.case)
  qed
qed

declare detect_loop.simps(2) [simp del]

subsection \<open>The result of \<open>detect_changes\<close>\<close>

lemma detect_changes_ok:
  assumes "\<forall>a\<in>set (lists h tenders). get_tender_no (dicts h a) \<noteq> Inl AttributeError"
  shows "detect_changes r now mem h tenders =
     (h\<lparr>dicts := annotated r mem h tenders\<rparr>,
      Inr \<lparr>new = bucket_filter r mem (dicts h) NEW (lists h tenders),
           updated = bucket_filter r mem (dicts h) UPDATED (lists h tenders),
           status_changed = bucket_filter r mem (dicts h) STATUS_CHANGED (lists h tenders),
           unchanged = bucket_filter r mem (dicts h) UNCHANGED (lists h tenders),
           all_ref = tenders,
           summary =
             \<lparr>total_scraped = length (lists h tenders),
              new_count = length (bucket_filter r mem (dicts h) NEW (lists h tenders)),
              updated_count = length (bucket_filter r mem (dicts h) UPDATED (lists h tenders)),
              status_changed_count =
                length (bucket_filter r mem (dicts h) STATUS_CHANGED (lists h tenders)),
              unchanged_count = length (bucket_filter r mem (dicts h) UNCHANGED (lists h tenders)),
              timestamp = now\<rparr>\<rparr>)"
proof -
  have "\<forall>a\<in>set (lists h tenders). \<exists>s. get_tender_no (dicts h a) = Inr s"
  proof
    fix a assume "a \<in> set (lists h tenders)"
    with assms have "get_tender_no (dicts h a) \<noteq> Inl AttributeError" by blast
    then show "\<exists>s. get_tender_no (dicts h a) = Inr s"
      by (auto simp: get_tender_no_def split: pyval.splits)
  qed
  from detect_loop_ok[OF this] show ?thesis
    by (simp add: detect_changes_def annotated_def[abs_def])
qed

lemma get_tender_no_cases:
  "get_tender_no d = Inl AttributeError \<or> (\<exists>s. get_tender_no d = Inr s)"
  by (auto simp: get_tender_no_def split: pyval.splits)

lemma detect_changes_report_D:
  assumes "detect_changes r now mem h tenders = (h', Inr rep)"
  shows "\<forall>a\<in>set (lists h tenders). get_tender_no (dicts h a) \<noteq> Inl AttributeError"
proof (rule ccontr)
  assume "\<not> ?thesis"
  then obtain a where a: "a \<in> set (lists h tenders)" "get_tender_no (dicts h a) = Inl AttributeError"
    by blast
  from detect_loop_err[of a "lists h tenders" "dicts h" AttributeError, OF a]
  obtain st' e' where
    "detect_loop r mem (lists h tenders) (dicts h)
       \<lparr>new = [], updated = [], status_changed = [], unchanged = []\<rparr> = (st', Inl e')"
    by blast
  with assms show False by (simp add: detect_changes_def)
qed

lemma classify_cases:
  assumes "get_tender_no d = Inr tno" "tno \<noteq> []"
  shows "classify r mem d =
     (case mem tno of None \<Rightarrow> Some NEW
      | Some old \<Rightarrow>
          if \<forall>k. \<not> changed r old d k then Some UNCHANGED
          else if changed r old d ''status'' then Some STATUS_CHANGED else Some UPDATED)"
  using assms unfolding classify_def Let_def diff_empty_iff diff_mem_iff
  by (simp split: option.splits)

lemma map_of_annotate_change_type:
  "classify r mem d = Some ct \<Longrightarrow>
   map_of (annotate r mem d) ''_change_type'' =
     Some (PStr (case ct of NEW \<Rightarrow> ''NEW'' | UPDATED \<Rightarrow> ''UPDATED''
                 | STATUS_CHANGED \<Rightarrow> ''STATUS_CHANGED'' | UNCHANGED \<Rightarrow> ''UNCHANGED''))"
  by (auto simp: classify_def annotate_def Let_def update_conv'
      split: sum.splits option.splits if_splits)

lemma map_of_annotate_status:
  "classify r mem d = Some STATUS_CHANGED \<Longrightarrow>
   \<exists>tno old. get_tender_no d = Inr tno \<and> mem tno = Some old \<and>
     map_of (annotate r mem d) ''_old_status'' = Some (dict_get old ''status'' (PStr '''')) \<and>
     map_of (annotate r mem d) ''_new_status'' = Some (dict_get d ''status'' (PStr ''''))"
  by (auto simp: classify_def annotate_def Let_def update_conv'
      split: sum.splits option.splits if_splits)

lemma map_of_annotate_changes:
  "classify r mem d = Some UPDATED \<Longrightarrow>
   \<exists>tno old. get_tender_no d = Inr tno \<and> mem tno = Some old \<and>
     map_of (annotate r mem d) ''_changes'' = Some (PChanges (diff r old d))"
  by (auto simp: classify_def annotate_def Let_def update_conv'
      split: sum.splits option.splits if_splits)

lemma map_of_annotate_public:
  "\<not> startswith key ''_'' \<Longrightarrow> map_of (annotate r mem d) key = map_of d key"
  using internal_neq[OF sw1, of key] internal_neq[OF sw2, of key]
    internal_neq[OF sw3, of key] internal_neq[OF sw4, of key]
  by (auto simp: annotate_def Let_def update_conv' split: sum.splits option.splits)

lemma in_bucket_filter:
  "a \<in> set (bucket_filter r mem st ct as) \<longleftrightarrow> a \<in> set as \<and> classify r mem (st a) = Some ct"
  by (auto simp: bucket_filter_def)

text \<open>
  Claim C1. A tender whose trimmed \<open>tender_no\<close> is not empty and is a key of the
  snapshot, and whose trimmed status differs from the snapshot entry's, is classified
  \<open>STATUS_CHANGED\<close> whatever else differs: it is in the \<open>status_changed\<close> bucket and in
  no other, and its dictionary carries \<open>_change_type\<close>, the old status and the new status.
\<close>

theorem status_changed_takes_precedence:
  assumes ok: "\<forall>x\<in>set (lists h tenders). get_tender_no (dicts h x) \<noteq> Inl AttributeError"
    and a: "a \<in> set (lists h tenders)"
    and tno: "get_tender_no (dicts h a) = Inr tender_no" "tender_no \<noteq> []"
    and old: "mem tender_no = Some old"
    and st: "field_norm r old ''status'' \<noteq> field_norm r (dicts h a) ''status''"
  shows "\<exists>h' rep. detect_changes r now mem h tenders = (h', Inr rep) \<and>
           a \<in> set (status_changed rep) \<and> a \<notin> set (updated rep) \<and>
           a \<notin> set (new rep) \<and> a \<notin> set (unchanged rep) \<and>
           map_of (dicts h' a) ''_change_type'' = Some (PStr ''STATUS_CHANGED'') \<and>
           map_of (dicts h' a) ''_old_status'' = Some (dict_get old ''status'' (PStr '''')) \<and>
           map_of (dicts h' a) ''_new_status'' = Some (dict_get (dicts h a) ''status'' (PStr ''''))"
proof -
  have ch: "changed r old (dicts h a) ''status''"
    using st by (simp add: changed_def startswith_def)
  have cl: "classify r mem (dicts h a) = Some STATUS_CHANGED"
    using ch old by (auto simp: classify_cases[OF tno])
  from map_of_annotate_status[OF cl] tno old
  have ann: "map_of (annotate r mem (dicts h a)) ''_old_status'' = Some (dict_get old ''status'' (PStr ''''))"
    "map_of (annotate r mem (dicts h a)) ''_new_status'' = Some (dict_get (dicts h a) ''status'' (PStr ''''))"
    by auto
  show ?thesis
    unfolding detect_changes_ok[OF ok]
    using a cl ann map_of_annotate_change_type[OF cl]
    by (simp add: in_bucket_filter annotated_def)
qed

text \<open>The theorem of C1 at the scenario of the specification.\<close>

theorem status_changed_takes_precedence_witness:
  "\<exists>h' rep. detect_changes repr_fixed ''2026-01-01T06:00:00'' snapshot_t1 heap_t1_t2 0 = (h', Inr rep) \<and>
           0 \<in> set (status_changed rep) \<and> 0 \<notin> set (updated rep) \<and>
           0 \<notin> set (new rep) \<and> 0 \<notin> set (unchanged rep) \<and>
           map_of (dicts h' 0) ''_change_type'' = Some (PStr ''STATUS_CHANGED'') \<and>
           map_of (dicts h' 0) ''_old_status'' = Some (PStr ''Active'') \<and>
           map_of (dicts h' 0) ''_new_status'' = Some (PStr ''Closed'')"
  using status_changed_takes_precedence[of heap_t1_t2 0 0 "''T-1''" snapshot_t1
      "[(''status'', PStr ''Active''), (''title'', PStr ''X'')]" repr_fixed "''2026-01-01T06:00:00''"]
  by (simp add: heap_t1_t2_def snapshot_t1_def get_tender_no_def dict_get_def strip_def
      is_space_def field_norm_def)

text \<open>
  Claim C7. A tender whose trimmed \<open>tender_no\<close> is not empty and is a key of the
  snapshot, and whose every compared field (every key of either dictionary that does not
  start with an underscore and is not \<open>detail_url\<close>) has the same trimmed string form
  in the snapshot entry and in the tender, is classified \<open>UNCHANGED\<close>: it is in the
  \<open>unchanged\<close> bucket and in no other, and its \<open>_change_type\<close> is \<open>UNCHANGED\<close>.
\<close>

theorem unchanged_when_fields_equal:
  assumes ok: "\<forall>x\<in>set (lists h tenders). get_tender_no (dicts h x) \<noteq> Inl AttributeError"
    and a: "a \<in> set (lists h tenders)"
    and tno: "get_tender_no (dicts h a) = Inr tender_no" "tender_no \<noteq> []"
    and old: "mem tender_no = Some old"
    and eq: "\<forall>key\<in>set (map fst old @ map fst (dicts h a)).
               \<not> startswith key ''_'' \<and> key \<noteq> ''detail_url'' \<longrightarrow>
               field_norm r old key = field_norm r (dicts h a) key"
  shows "\<exists>h' rep. detect_changes r now mem h tenders = (h', Inr rep) \<and>
           a \<in> set (unchanged rep) \<and> a \<notin> set (new rep) \<and>
           a \<notin> set (updated rep) \<and> a \<notin> set (status_changed rep) \<and>
           map_of (dicts h' a) ''_change_type'' = Some (PStr ''UNCHANGED'')"
proof -
  have nch: "\<forall>k. \<not> changed r old (dicts h a) k"
  proof
    fix k
    show "\<not> changed r old (dicts h a) k"
    proof
      assume c: "changed r old (dicts h a) k"
      from changed_in_keys[OF c] have "k \<in> set (map fst old @ map fst (dicts h a))"
        by (simp add: all_keys_def)
      with eq c show False by (auto simp: changed_def)
    qed
  qed
  have cl: "classify r mem (dicts h a) = Some UNCHANGED"
    using nch old by (simp add: classify_cases[OF tno])
  show ?thesis
    unfolding detect_changes_ok[OF ok]
    using a cl map_of_annotate_change_type[OF cl]
    by (simp add: in_bucket_filter annotated_def)
qed

text \<open>The theorem of C7 at a tender that differs from its snapshot entry in padding only.\<close>

theorem unchanged_when_fields_equal_witness:
  "\<exists>h' rep. detect_changes repr_fixed ''2026-01-01T06:00:00'' snapshot_saved heap_same 0 = (h', Inr rep) \<and>
           0 \<in> set (unchanged rep) \<and> 0 \<notin> set (new rep) \<and>
           0 \<notin> set (updated rep) \<and> 0 \<notin> set (status_changed rep) \<and>
           map_of (dicts h' 0) ''_change_type'' = Some (PStr ''UNCHANGED'')"
  using unchanged_when_fields_equal[of heap_same 0 0 "''T-1''" snapshot_saved
      "[(''tender_no'', PStr ''T-1''), (''status'', PStr ''Active''),
        (''title'', PStr ''X''), (''_last_seen'', PStr ''2025-12-31T19:00:00'')]"
      repr_fixed "''2026-01-01T06:00:00''"]
  by (simp add: heap_same_def snapshot_saved_def get_tender_no_def dict_get_def strip_def
      is_space_def field_norm_def startswith_def)

lemma count_list_filter: "count_list (filter P xs) a = (if P a then count_list xs a else 0)"
  by (induction xs) auto

lemma classify_None_iff:
  "get_tender_no d \<noteq> Inl AttributeError \<Longrightarrow> classify r mem d = None \<longleftrightarrow> get_tender_no d = Inr []"
  using get_tender_no_cases[of d]
  by (auto simp: classify_def Let_def split: option.splits if_splits)

lemma bucket_lengths:
  "\<forall>a\<in>set as. classify r mem (st a) \<noteq> None \<Longrightarrow>
   length (bucket_filter r mem st NEW as) + length (bucket_filter r mem st UPDATED as) +
   length (bucket_filter r mem st STATUS_CHANGED as) + length (bucket_filter r mem st UNCHANGED as) =
   length as"
proof (induction as)
  case Nil
  then show ?case by (simp add: bucket_filter_def)
next
  case (Cons a as)
  then obtain ct where ct: "classify r mem (st a) = Some ct" by auto
  from Cons have "length (bucket_filter r mem st NEW as) + length (bucket_filter r mem st UPDATED as) +
   length (bucket_filter r mem st STATUS_CHANGED as) + length (bucket_filter r mem st UNCHANGED as) =
   length as" by simp
  with ct show ?case by (cases ct) (simp_all add: bucket_filter_def)
qed

text \<open>
  The end-to-end scenario of the specification, evaluated: \<open>T-1\<close> is
  \<open>STATUS_CHANGED\<close>, \<open>T-2\<close> is \<open>NEW\<close>, and the counts are 1, 0, 1, 0 of 2.
\<close>

lemma detect_changes_scenario:
  "snd (detect_changes repr_fixed ''2026-01-01T06:00:00'' snapshot_t1 heap_t1_t2 0) =
     Inr \<lparr>new = [1], updated = [], status_changed = [0], unchanged = [], all_ref = 0,
          summary = \<lparr>total_scraped = 2, new_count = 1, updated_count = 0,
                      status_changed_count = 1, unchanged_count = 0,
                      timestamp = ''2026-01-01T06:00:00''\<rparr>\<rparr>"
  by (simp add: detect_changes_def detect_loop.simps heap_t1_t2_def snapshot_t1_def
      get_tender_no_def dict_get_def strip_def is_space_def diff_def all_keys_def
      field_norm_def startswith_def Let_def)

text \<open>
  Claim C6. The input is a list of records of the data model: every tender has its
  identity, a \<open>tender_no\<close> that is a string and is not empty once trimmed (the parser
  of the listing rows drops every row without one). Then \<open>detect_changes\<close> returns a
  report whose four buckets partition the input: every occurrence of a tender in the input
  is in exactly one bucket, once; the buckets together hold the tenders of the input and
  no two buckets share a tender. The four counts of the summary are the lengths of the
  buckets, \<open>total_scraped\<close> is the length of the input, the four counts add up to
  \<open>total_scraped\<close>, and the timestamp is the time of the call.
\<close>

theorem detect_changes_partition:
  assumes ident: "\<forall>x\<in>set (lists h tenders).
                    \<exists>tender_no. get_tender_no (dicts h x) = Inr tender_no \<and> tender_no \<noteq> []"
  shows "\<exists>h' rep. detect_changes r now mem h tenders = (h', Inr rep) \<and>
           (\<forall>a. count_list (new rep) a + count_list (updated rep) a +
                 count_list (status_changed rep) a + count_list (unchanged rep) a =
                 count_list (lists h tenders) a) \<and>
           set (new rep) \<union> set (updated rep) \<union> set (status_changed rep) \<union> set (unchanged rep) =
             set (lists h tenders) \<and>
           set (new rep) \<inter> set (updated rep) = {} \<and>
           set (new rep) \<inter> set (status_changed rep) = {} \<and>
           set (new rep) \<inter> set (unchanged rep) = {} \<and>
           set (updated rep) \<inter> set (status_changed rep) = {} \<and>
           set (updated rep) \<inter> set (unchanged rep) = {} \<and>
           set (status_changed rep) \<inter> set (unchanged rep) = {} \<and>
           new_count (summary rep) = length (new rep) \<and>
           updated_count (summary rep) = length (updated rep) \<and>
           status_changed_count (summary rep) = length (status_changed rep) \<and>
           unchanged_count (summary rep) = length (unchanged rep) \<and>
           total_scraped (summary rep) = length (lists h tenders) \<and>
           new_count (summary rep) + updated_count (summary rep) +
             status_changed_count (summary rep) + unchanged_count (summary rep) =
             total_scraped (summary rep) \<and>
           timestamp (summary rep) = now"
proof -
  let ?L = "lists h tenders"
  let ?B = "\<lambda>ct. bucket_filter r mem (dicts h) ct ?L"
  from ident have ok: "\<forall>x\<in>set ?L. get_tender_no (dicts h x) \<noteq> Inl AttributeError"
    by fastforce
  have cls: "\<forall>a\<in>set ?L. classify r mem (dicts h a) \<noteq> None"
  proof
    fix a assume a: "a \<in> set ?L"
    with ok have g: "get_tender_no (dicts h a) \<noteq> Inl AttributeError" by blast
    from ident a have "get_tender_no (dicts h a) \<noteq> Inr []" by fastforce
    with classify_None_iff[OF g, of r mem] show "classify r mem (dicts h a) \<noteq> None" by simp
  qed
  have cnt: "count_list (?B NEW) a + count_list (?B UPDATED) a +
        count_list (?B STATUS_CHANGED) a + count_list (?B UNCHANGED) a = count_list ?L a" for a
  proof (cases "a \<in> set ?L")
    case False
    then show ?thesis by (simp add: bucket_filter_def count_list_filter count_list_0_iff)
  next
    case True
    with cls obtain ct where "classify r mem (dicts h a) = Some ct" by auto
    then show ?thesis by (cases ct) (simp_all add: bucket_filter_def count_list_filter)
  qed
  have un: "set (?B NEW) \<union> set (?B UPDATED) \<union> set (?B STATUS_CHANGED) \<union> set (?B UNCHANGED) = set ?L"
  proof
    show "set (?B NEW) \<union> set (?B UPDATED) \<union> set (?B STATUS_CHANGED) \<union> set (?B UNCHANGED) \<subseteq> set ?L"
      by (auto simp: in_bucket_filter)
    show "set ?L \<subseteq> set (?B NEW) \<union> set (?B UPDATED) \<union> set (?B STATUS_CHANGED) \<union> set (?B UNCHANGED)"
    proof
      fix a assume a: "a \<in> set ?L"
      with cls obtain ct where "classify r mem (dicts h a) = Some ct" by auto
      with a show "a \<in> set (?B NEW) \<union> set (?B UPDATED) \<union> set (?B STATUS_CHANGED) \<union> set (?B UNCHANGED)"
        by (cases ct) (simp_all add: in_bucket_filter)
    qed
  qed
  have dj: "set (?B NEW) \<inter> set (?B UPDATED) = {}" "set (?B NEW) \<inter> set (?B STATUS_CHANGED) = {}"
    "set (?B NEW) \<inter> set (?B UNCHANGED) = {}" "set (?B UPDATED) \<inter> set (?B STATUS_CHANGED) = {}"
    "set (?B UPDATED) \<inter> set (?B UNCHANGED) = {}" "set (?B STATUS_CHANGED) \<inter> set (?B UNCHANGED) = {}"
    by (auto simp: in_bucket_filter)
  note len = bucket_lengths[OF cls]
  show ?thesis
    unfolding detect_changes_ok[OF ok]
    using cnt un dj len by simp
qed

text \<open>
  The theorem of C6 at the scenario of the specification: the two tenders of the input
  are in \<open>status_changed\<close> and \<open>new\<close>, and the counts 1, 0, 1, 0 add up to the total 2.
\<close>

theorem detect_changes_partition_witness:
  "\<exists>h' rep. detect_changes repr_fixed ''2026-01-01T06:00:00'' snapshot_t1 heap_t1_t2 0 = (h', Inr rep) \<and>
     lists heap_t1_t2 0 = [0, 1] \<and>
     new rep = [1] \<and> updated rep = [] \<and> status_changed rep = [0] \<and> unchanged rep = [] \<and>
     set (new rep) \<union> set (updated rep) \<union> set (status_changed rep) \<union> set (unchanged rep) =
       set (lists heap_t1_t2 0) \<and>
     set (new rep) \<inter> set (status_changed rep) = {} \<and>
     new_count (summary rep) = 1 \<and> updated_count (summary rep) = 0 \<and>
     status_changed_count (summary rep) = 1 \<and> unchanged_count (summary rep) = 0 \<and>
     total_scraped (summary rep) = 2 \<and>
     new_count (summary rep) + updated_count (summary rep) +
       status_changed_count (summary rep) + unchanged_count (summary rep) =
       total_scraped (summary rep) \<and>
     timestamp (summary rep) = ''2026-01-01T06:00:00''"
proof -
  have ident: "\<forall>x\<in>set (lists heap_t1_t2 0).
      \<exists>tender_no. get_tender_no (dicts heap_t1_t2 x) = Inr tender_no \<and> tender_no \<noteq> []"
    by (simp add: heap_t1_t2_def get_tender_no_def dict_get_def strip_def is_space_def)
  from detect_changes_partition[OF ident, of repr_fixed "''2026-01-01T06:00:00''" snapshot_t1]
  obtain h' rep where
    dc: "detect_changes repr_fixed ''2026-01-01T06:00:00'' snapshot_t1 heap_t1_t2 0 = (h', Inr rep)"
    and un: "set (new rep) \<union> set (updated rep) \<union> set (status_changed rep) \<union> set (unchanged rep) =
       set (lists heap_t1_t2 0)"
    and dj: "set (new rep) \<inter> set (status_changed rep) = {}"
    and sm: "new_count (summary rep) + updated_count (summary rep) +
       status_changed_count (summary rep) + unchanged_count (summary rep) =
       total_scraped (summary rep)"
    and ts: "timestamp (summary rep) = ''2026-01-01T06:00:00''"
    by blast
  from dc detect_changes_scenario have rep:
    "new rep = [1]" "updated rep = []" "status_changed rep = [0]" "unchanged rep = []"
    "new_count (summary rep) = 1" "updated_count (summary rep) = 0"
    "status_changed_count (summary rep) = 1" "unchanged_count (summary rep) = 0"
    "total_scraped (summary rep) = 2"
    by simp_all
  have l: "lists heap_t1_t2 0 = [0, 1]" by (simp add: heap_t1_t2_def)
  show ?thesis using dc l rep un dj sm ts by blast
qed

text \<open>
  Claim C10. \<open>detect_changes\<close> writes into the dictionaries it is given. Every tender
  of the input whose trimmed \<open>tender_no\<close> is not empty is classified: it is in a bucket
  and, in the heap after the call, its own dictionary carries \<open>_change_type\<close> with
  one of the four values; if its \<open>tender_no\<close> is not a key of the snapshot, the value
  is \<open>NEW\<close>. Every tender of a bucket carries the \<open>_change_type\<close> of the bucket, a
  tender of \<open>status_changed\<close> carries \<open>_old_status\<close> and \<open>_new_status\<close>, a tender
  of \<open>updated\<close> carries \<open>_changes\<close>. The \<open>all\<close> entry of the report is the
  address of the caller's list, whose content is unchanged and holds every tender of
  every bucket. No key that does not start with an underscore is changed, and no
  dictionary outside the input list is written.
\<close>

theorem detect_changes_annotates_in_place:
  assumes ok: "\<forall>x\<in>set (lists h tenders). get_tender_no (dicts h x) \<noteq> Inl AttributeError"
  shows "\<exists>h' rep. detect_changes r now mem h tenders = (h', Inr rep) \<and>
           all_ref rep = tenders \<and> lists h' = lists h \<and>
           set (new rep) \<union> set (updated rep) \<union> set (status_changed rep) \<union> set (unchanged rep)
             \<subseteq> set (lists h' (all_ref rep)) \<and>
           (\<forall>a\<in>set (new rep). map_of (dicts h' a) ''_change_type'' = Some (PStr ''NEW'')) \<and>
           (\<forall>a\<in>set (unchanged rep).
              map_of (dicts h' a) ''_change_type'' = Some (PStr ''UNCHANGED'')) \<and>
           (\<forall>a\<in>set (status_changed rep).
              map_of (dicts h' a) ''_change_type'' = Some (PStr ''STATUS_CHANGED'') \<and>
              (\<exists>tender_no old. get_tender_no (dicts h a) = Inr tender_no \<and>
                 mem tender_no = Some old \<and>
                 map_of (dicts h' a) ''_old_status'' = Some (dict_get old ''status'' (PStr ''''))) \<and>
              map_of (dicts h' a) ''_new_status'' =
                Some (dict_get (dicts h a) ''status'' (PStr ''''))) \<and>
           (\<forall>a\<in>set (updated rep).
              map_of (dicts h' a) ''_change_type'' = Some (PStr ''UPDATED'') \<and>
              (\<exists>tender_no old. get_tender_no (dicts h a) = Inr tender_no \<and>
                 mem tender_no = Some old \<and>
                 map_of (dicts h' a) ''_changes'' = Some (PChanges (diff r old (dicts h a))))) \<and>
           (\<forall>x key. \<not> startswith key ''_'' \<longrightarrow> map_of (dicts h' x) key = map_of (dicts h x) key) \<and>
           (\<forall>a\<in>set (lists h tenders). get_tender_no (dicts h a) \<noteq> Inr [] \<longrightarrow>
              a \<in> set (new rep) \<union> set (updated rep) \<union> set (status_changed rep) \<union>
                  set (unchanged rep) \<and>
              map_of (dicts h' a) ''_change_type'' \<in>
                {Some (PStr ''NEW''), Some (PStr ''UPDATED''), Some (PStr ''STATUS_CHANGED''),
                 Some (PStr ''UNCHANGED'')}) \<and>
           (\<forall>a\<in>set (lists h tenders). \<forall>tender_no.
              get_tender_no (dicts h a) = Inr tender_no \<and> tender_no \<noteq> [] \<and>
              mem tender_no = None \<longrightarrow>
              a \<in> set (new rep) \<and> map_of (dicts h' a) ''_change_type'' = Some (PStr ''NEW'')) \<and>
           (\<forall>x. x \<notin> set (lists h tenders) \<longrightarrow> dicts h' x = dicts h x)"
proof -
  let ?h' = "h\<lparr>dicts := annotated r mem h tenders\<rparr>"
  let ?L = "lists h tenders"
  let ?B = "\<lambda>ct. bucket_filter r mem (dicts h) ct ?L"
  have n: "\<forall>a\<in>set (?B NEW). map_of (dicts ?h' a) ''_change_type'' = Some (PStr ''NEW'')"
    using map_of_annotate_change_type[of r mem _ NEW]
    by (auto simp: in_bucket_filter annotated_def)
  have u: "\<forall>a\<in>set (?B UNCHANGED).
             map_of (dicts ?h' a) ''_change_type'' = Some (PStr ''UNCHANGED'')"
    using map_of_annotate_change_type[of r mem _ UNCHANGED]
    by (auto simp: in_bucket_filter annotated_def)
  have s: "\<forall>a\<in>set (?B STATUS_CHANGED).
              map_of (dicts ?h' a) ''_change_type'' = Some (PStr ''STATUS_CHANGED'') \<and>
              (\<exists>tender_no old. get_tender_no (dicts h a) = Inr tender_no \<and>
                 mem tender_no = Some old \<and>
                 map_of (dicts ?h' a) ''_old_status'' = Some (dict_get old ''status'' (PStr ''''))) \<and>
              map_of (dicts ?h' a) ''_new_status'' =
                Some (dict_get (dicts h a) ''status'' (PStr ''''))"
  proof
    fix a assume "a \<in> set (?B STATUS_CHANGED)"
    then have a: "a \<in> set ?L" and cl: "classify r mem (dicts h a) = Some STATUS_CHANGED"
      by (simp_all add: in_bucket_filter)
    from map_of_annotate_status[OF cl] map_of_annotate_change_type[OF cl] a
    show "map_of (dicts ?h' a) ''_change_type'' = Some (PStr ''STATUS_CHANGED'') \<and>
              (\<exists>tender_no old. get_tender_no (dicts h a) = Inr tender_no \<and>
                 mem tender_no = Some old \<and>
                 map_of (dicts ?h' a) ''_old_status'' = Some (dict_get old ''status'' (PStr ''''))) \<and>
              map_of (dicts ?h' a) ''_new_status'' =
                Some (dict_get (dicts h a) ''status'' (PStr ''''))"
      by (auto simp: annotated_def)
  qed
  have d: "\<forall>a\<in>set (?B UPDATED).
              map_of (dicts ?h' a) ''_change_type'' = Some (PStr ''UPDATED'') \<and>
              (\<exists>tender_no old. get_tender_no (dicts h a) = Inr tender_no \<and>
                 mem tender_no = Some old \<and>
                 map_of (dicts ?h' a) ''_changes'' = Some (PChanges (diff r old (dicts h a))))"
  proof
    fix a assume "a \<in> set (?B UPDATED)"
    then have a: "a \<in> set ?L" and cl: "classify r mem (dicts h a) = Some UPDATED"
      by (simp_all add: in_bucket_filter)
    from map_of_annotate_changes[OF cl] map_of_annotate_change_type[OF cl] a
    show "map_of (dicts ?h' a) ''_change_type'' = Some (PStr ''UPDATED'') \<and>
              (\<exists>tender_no old. get_tender_no (dicts h a) = Inr tender_no \<and>
                 mem tender_no = Some old \<and>
                 map_of (dicts ?h' a) ''_changes'' = Some (PChanges (diff r old (dicts h a))))"
      by (auto simp: annotated_def)
  qed
  have p: "\<forall>x key. \<not> startswith key ''_'' \<longrightarrow> map_of (dicts ?h' x) key = map_of (dicts h x) key"
    by (simp add: annotated_def map_of_annotate_public)
  have sub: "set (?B NEW) \<union> set (?B UPDATED) \<union> set (?B STATUS_CHANGED) \<union> set (?B UNCHANGED)
        \<subseteq> set ?L"
    by (auto simp: in_bucket_filter)
  have pin: "\<forall>a\<in>set ?L. get_tender_no (dicts h a) \<noteq> Inr [] \<longrightarrow>
              a \<in> set (?B NEW) \<union> set (?B UPDATED) \<union> set (?B STATUS_CHANGED) \<union> set (?B UNCHANGED) \<and>
              map_of (dicts ?h' a) ''_change_type'' \<in>
                {Some (PStr ''NEW''), Some (PStr ''UPDATED''), Some (PStr ''STATUS_CHANGED''),
                 Some (PStr ''UNCHANGED'')}"
  proof (intro ballI impI)
    fix a assume a: "a \<in> set ?L" and nb: "get_tender_no (dicts h a) \<noteq> Inr []"
    from ok a have g: "get_tender_no (dicts h a) \<noteq> Inl AttributeError" by blast
    from classify_None_iff[OF g, of r mem] nb obtain ct where
      cl: "classify r mem (dicts h a) = Some ct" by auto
    from map_of_annotate_change_type[OF cl] a cl
    show "a \<in> set (?B NEW) \<union> set (?B UPDATED) \<union> set (?B STATUS_CHANGED) \<union> set (?B UNCHANGED) \<and>
              map_of (dicts ?h' a) ''_change_type'' \<in>
                {Some (PStr ''NEW''), Some (PStr ''UPDATED''), Some (PStr ''STATUS_CHANGED''),
                 Some (PStr ''UNCHANGED'')}"
      by (cases ct) (simp_all add: in_bucket_filter annotated_def)
  qed
  have nw: "\<forall>a\<in>set ?L. \<forall>tender_no.
              get_tender_no (dicts h a) = Inr tender_no \<and> tender_no \<noteq> [] \<and>
              mem tender_no = None \<longrightarrow>
              a \<in> set (?B NEW) \<and> map_of (dicts ?h' a) ''_change_type'' = Some (PStr ''NEW'')"
  proof (intro ballI allI impI)
    fix a tender_no
    assume a: "a \<in> set ?L"
      and t: "get_tender_no (dicts h a) = Inr tender_no \<and> tender_no \<noteq> [] \<and> mem tender_no = None"
    then have cl: "classify r mem (dicts h a) = Some NEW" by (simp add: classify_def)
    from map_of_annotate_change_type[OF cl] a cl
    show "a \<in> set (?B NEW) \<and> map_of (dicts ?h' a) ''_change_type'' = Some (PStr ''NEW'')"
      by (simp add: in_bucket_filter annotated_def)
  qed
  have fr: "\<forall>x. x \<notin> set ?L \<longrightarrow> dicts ?h' x = dicts h x"
    by (simp add: annotated_def)
  show ?thesis
    unfolding detect_changes_ok[OF ok]
    using n u s d p sub pin nw fr by simp
qed

text \<open>
  The theorem of C10 at the scenario of the specification: before the call neither
  dictionary has \<open>_change_type\<close>; after it, the dictionary at address 1 (\<open>T-2\<close>)
  carries \<open>NEW\<close> and the one at address 0 (\<open>T-1\<close>) carries \<open>STATUS_CHANGED\<close>
  with the old status \<open>Active\<close> and the new status \<open>Closed\<close>, read through the
  caller's list.
\<close>

theorem detect_changes_annotates_in_place_witness:
  "map_of (dicts heap_t1_t2 0) ''_change_type'' = None \<and>
   map_of (dicts heap_t1_t2 1) ''_change_type'' = None \<and>
   (\<exists>h' rep. detect_changes repr_fixed ''2026-01-01T06:00:00'' snapshot_t1 heap_t1_t2 0 = (h', Inr rep) \<and>
      all_ref rep = 0 \<and> lists h' 0 = [0, 1] \<and>
      new rep = [1] \<and> status_changed rep = [0] \<and>
      map_of (dicts h' 1) ''_change_type'' = Some (PStr ''NEW'') \<and>
      map_of (dicts h' 0) ''_change_type'' = Some (PStr ''STATUS_CHANGED'') \<and>
      map_of (dicts h' 0) ''_old_status'' = Some (PStr ''Active'') \<and>
      map_of (dicts h' 0) ''_new_status'' = Some (PStr ''Closed'') \<and>
      map_of (dicts h' 0) ''status'' = Some (PStr ''Closed''))"
proof -
  have ok: "\<forall>x\<in>set (lists heap_t1_t2 0). get_tender_no (dicts heap_t1_t2 x) \<noteq> Inl AttributeError"
    by (simp add: heap_t1_t2_def get_tender_no_def dict_get_def)
  from detect_changes_annotates_in_place[OF ok, of repr_fixed "''2026-01-01T06:00:00''" snapshot_t1]
  obtain h' rep where
    dc: "detect_changes repr_fixed ''2026-01-01T06:00:00'' snapshot_t1 heap_t1_t2 0 = (h', Inr rep)"
    and ar: "all_ref rep = 0" and ls: "lists h' = lists heap_t1_t2"
    and nw: "\<forall>a\<in>set (new rep). map_of (dicts h' a) ''_change_type'' = Some (PStr ''NEW'')"
    and sc: "\<forall>a\<in>set (status_changed rep).
              map_of (dicts h' a) ''_change_type'' = Some (PStr ''STATUS_CHANGED'') \<and>
              (\<exists>tender_no old. get_tender_no (dicts heap_t1_t2 a) = Inr tender_no \<and>
                 snapshot_t1 tender_no = Some old \<and>
                 map_of (dicts h' a) ''_old_status'' = Some (dict_get old ''status'' (PStr ''''))) \<and>
              map_of (dicts h' a) ''_new_status'' =
                Some (dict_get (dicts heap_t1_t2 a) ''status'' (PStr ''''))"
    and pb: "\<forall>x key. \<not> startswith key ''_'' \<longrightarrow>
              map_of (dicts h' x) key = map_of (dicts heap_t1_t2 x) key"
    by blast
  from dc detect_changes_scenario have rep: "new rep = [1]" "status_changed rep = [0]"
    by simp_all
  from nw rep have c1: "map_of (dicts h' 1) ''_change_type'' = Some (PStr ''NEW'')" by simp
  from sc rep have c0: "map_of (dicts h' 0) ''_change_type'' = Some (PStr ''STATUS_CHANGED'')"
    and os: "\<exists>tender_no old. get_tender_no (dicts heap_t1_t2 0) = Inr tender_no \<and>
                 snapshot_t1 tender_no = Some old \<and>
                 map_of (dicts h' 0) ''_old_status'' = Some (dict_get old ''status'' (PStr ''''))"
    and ns: "map_of (dicts h' 0) ''_new_status'' =
                Some (dict_get (dicts heap_t1_t2 0) ''status'' (PStr ''''))"
    by simp_all
  have g0: "get_tender_no (dicts heap_t1_t2 0) = Inr ''T-1''"
    by (simp add: heap_t1_t2_def get_tender_no_def dict_get_def strip_def is_space_def)
  from os g0 have os': "map_of (dicts h' 0) ''_old_status'' = Some (PStr ''Active'')"
    by (auto simp: snapshot_t1_def dict_get_def split: if_splits)
  from ns have ns': "map_of (dicts h' 0) ''_new_status'' = Some (PStr ''Closed'')"
    by (simp add: heap_t1_t2_def dict_get_def)
  from pb have st: "map_of (dicts h' 0) ''status'' = Some (PStr ''Closed'')"
    by (simp add: heap_t1_t2_def startswith_def)
  have before: "map_of (dicts heap_t1_t2 0) ''_change_type'' = None"
    "map_of (dicts heap_t1_t2 1) ''_change_type'' = None"
    by (simp_all add: heap_t1_t2_def)
  have l: "lists h' 0 = [0, 1]" using ls by (simp add: heap_t1_t2_def)
  show ?thesis using before dc ar l rep c1 c0 os' ns' st by blast
qed

section \<open>Properties of \<open>update_memory\<close>\<close>









lemma appended_Nil [simp]: "appended [] seen = []"
  by simp













lemma update_memory_docs_example:
  "fst (update_memory ''2026-01-01T06:00:00'' snapshot_docs [tender_docs]) ''T-1'' =
     Some [(''tender_no'', PStr ''T-1''), (''status'', PStr ''Active''),
           (''attached_documents'', PDocs [doc_a, doc_b]),
           (''_last_seen'', PStr ''2026-01-01T06:00:00'')]"
  by (simp add: tender_docs_def snapshot_docs_def update_one_def get_tender_no_def dict_get_def
      strip_def is_space_def existing_entry_def startswith_def merge_attached_def Let_def
      seen_urls_of_def map_filter_def truthy_url_def doc_get_def doc_a_def doc_b_def)

section \<open>Properties of \<open>_parse_row_cells\<close>\<close>

text \<open>
  What the status test \<open>if status and status.lower() not in _VALID_STATUSES\<close> does: a
  row with a non-empty status outside the five values yields \<open>None\<close>, and no exception,
  whatever the Actions cell does; a row that is accepted has a status that is empty or
  among the five values.
\<close>

lemma parse_row_cells_status_test:
  "(parse_row_cells re_search cells cell_count action = Inr (Some tender) \<longrightarrow>
      safe_cell_text cells COL_STATUS = [] \<or>
      lower (safe_cell_text cells COL_STATUS) \<in> set VALID_STATUSES) \<and>
   (safe_cell_text cells COL_STATUS \<noteq> [] \<and>
    lower (safe_cell_text cells COL_STATUS) \<notin> set VALID_STATUSES \<longrightarrow>
      parse_row_cells re_search cells cell_count action = Inr None)"
  by (auto simp: parse_row_cells_def Let_def split: if_splits sum.splits)

text \<open>Lower-casing of the two status texts used below.\<close>

lemma lower_Active: "lower ''Active'' = ''active''"
  by code_simp

lemma lower_Draft: "lower ''Draft'' = ''draft''"
  by code_simp

text \<open>A row with status \<open>Draft\<close> is dropped and a row with status \<open>Active\<close> is accepted.\<close>

lemma parse_row_cells_status_test_example:
  "parse_row_cells no_match (row_cells_example ''Draft'') 7 (Inl (OtherException ''timeout'')) = Inr None
   \<and> lower (safe_cell_text (row_cells_example ''Active'') COL_STATUS) \<in> set VALID_STATUSES
   \<and> (\<exists>t. parse_row_cells no_match (row_cells_example ''Active'') 7 (Inl (OtherException ''timeout''))
        = Inr (Some t))"
proof -
  have s: "safe_cell_text (row_cells_example ''Draft'') COL_STATUS = ''Draft''"
    "safe_cell_text (row_cells_example ''Active'') COL_STATUS = ''Active''"
    by (simp_all add: safe_cell_text_def row_cells_example_def COL_STATUS_def strip_def is_space_def)
  have a: "\<exists>t. parse_row_cells no_match (row_cells_example ''Active'') 7 (Inl (OtherException ''timeout''))
        = Inr (Some t)"
    by (simp add: parse_row_cells_def Let_def safe_cell_text_def row_cells_example_def
        COL_STATUS_def COL_TENDER_NO_def COL_ACTIONS_def strip_def is_space_def
        JUNK_TENDER_NOS_def VALID_STATUSES_def lower_Active)
  from a parse_row_cells_status_test[of no_match "row_cells_example ''Active''" 7
      "Inl (OtherException ''timeout'')"]
  have b: "lower (safe_cell_text (row_cells_example ''Active'') COL_STATUS) \<in> set VALID_STATUSES"
    using s by auto
  have c: "parse_row_cells no_match (row_cells_example ''Draft'') 7 (Inl (OtherException ''timeout'')) = Inr None"
    using parse_row_cells_status_test[of no_match "row_cells_example ''Draft''" 7 "Inl (OtherException ''timeout'')"]
    by (simp add: s lower_Draft VALID_STATUSES_def)
  show ?thesis using a b c by blast
qed

text \<open>
  Claim C9. The claim, and the comment above the test in the source (\<open>Must have a valid
  status to be a real tender row\<close>), require of an accepted row a status among
  \<open>published\<close>, \<open>active\<close>, \<open>closed\<close>, \<open>cancelled\<close>, \<open>expired\<close>. The code does
  otherwise at an empty status cell: the row of seven cells with tender number \<open>T-1\<close>
  and an empty status passes the test, because of its guard \<open>status and\<close>, and is
  returned as a record whose status is the empty string, which is none of the five values.
\<close>

theorem parse_row_cells_accepts_empty_status:
  "safe_cell_text (row_cells_example '''') COL_STATUS = '''' \<and>
   lower '''' \<notin> set VALID_STATUSES \<and>
   parse_row_cells no_match (row_cells_example '''') 7 (Inl (OtherException ''timeout'')) =
     Inr (Some
       [(''deptt_rly_unit'', PStr ''NR''), (''tender_no'', PStr ''T-1''),
        (''tender_title'', PStr ''Track renewal''), (''status'', PStr ''''),
        (''work_area'', PStr ''Works''), (''due_date_time'', PStr ''25/02/2026 14:00''),
        (''due_days'', PStr ''12''), (''detail_url'', PStr ''''),
        (''tender_type'', PStr ''''), (''date_of_issue'', PStr ''''),
        (''estimated_value'', PStr ''''), (''emd_amount'', PStr ''''),
        (''document_cost'', PStr ''''), (''contact_officer'', PStr ''''),
        (''corrigendum'', PStr ''''), (''description'', PStr ''''),
        (''tender_doc_download_url'', PNone), (''attached_documents'', PDocs [])])"
  by (simp add: parse_row_cells_def Let_def safe_cell_text_def row_cells_example_def
      COL_STATUS_def COL_TENDER_NO_def COL_ACTIONS_def COL_DEPTT_def COL_TENDER_TITLE_def
      COL_WORK_AREA_def COL_DUE_DATE_def COL_DUE_DAYS_def strip_def is_space_def
      JUNK_TENDER_NOS_def VALID_STATUSES_def lower_def)

section \<open>Properties of \<open>_perform_login\<close>\<close>

lemma login_success_counts:
  "login_success env uc otp st = (st', res) \<Longrightarrow>
   attempts_started st' = attempts_started st \<and> otp_generations st' = otp_generations st"
  by (auto simp: login_success_def split: option.splits if_splits)

lemma login_verify_counts:
  "login_verify env uc otp st = (st', res) \<Longrightarrow>
   attempts_started st' = attempts_started st \<and> otp_generations st' = otp_generations st"
  by (auto simp: login_verify_def Let_def split: option.splits if_splits
      dest!: login_success_counts)

lemma login_attempt_counts:
  "login_attempt m a env st = (st', res) \<Longrightarrow>
   attempts_started st' = attempts_started st + 1 \<and>
   otp_generations st' \<le> otp_generations st + 1"
  by (auto simp: login_attempt_def Let_def split: option.splits if_splits
      dest!: login_verify_counts)

lemma login_loop_counts:
  "login_loop m envs as st = (st', res) \<Longrightarrow>
   attempts_started st' \<le> attempts_started st + length as \<and>
   otp_generations st' \<le> otp_generations st + length as"
proof (induction as arbitrary: st)
  case Nil
  then show ?case by auto
next
  case (Cons a as)
  obtain st1 r1 where a1: "login_attempt m a (envs a) st = (st1, r1)" by (cases "login_attempt m a (envs a) st")
  from login_attempt_counts[OF a1]
  have c: "attempts_started st1 = attempts_started st + 1" "otp_generations st1 \<le> otp_generations st + 1"
    by auto
  show ?case
  proof (cases "st' = st1")
    case True
    then show ?thesis using c by auto
  next
    case False
    then have "login_loop m envs as st1 = (st', res)"
      using Cons.prems a1
      by (auto split: attempt_result.splits pyerr.splits if_splits)
    from Cons.IH[OF this] show ?thesis using c by auto
  qed
qed

lemma attempts_1_2: "[1 ..< 2 + 1] = [1, 2 :: nat]"
  by code_simp

lemma verification_fails_raises:
  assumes "verification_fails env"
  shows "\<exists>st' msg. login_attempt m a env st = (st', Raise (RuntimeError msg))"
  using assms
  by (auto simp: verification_fails_def login_attempt_def login_verify_def Let_def)

text \<open>
  Claim C3. With the cap of 2, the flow begins at most two attempts and clicks \<open>Get OTP\<close>
  at most twice, whatever happens. When the verification fails in the first and in the
  second attempt, the flow ends after the second attempt with a \<open>RuntimeError\<close> that
  leaves the function: two attempts were begun and no third.
\<close>

theorem login_attempt_cap:
  "attempts_started (fst (perform_login 2 envs loaded_otp cache_file)) \<le> 2 \<and>
   otp_generations (fst (perform_login 2 envs loaded_otp cache_file)) \<le> 2 \<and>
   (verification_fails (envs 1) \<and> verification_fails (envs 2) \<longrightarrow>
      (\<exists>msg. snd (perform_login 2 envs loaded_otp cache_file) = Inl (RuntimeError msg)) \<and>
      attempts_started (fst (perform_login 2 envs loaded_otp cache_file)) = 2)"
proof -
  let ?st0 = "\<lparr>cached_otp = loaded_otp, otp_generations = 0, attempts_started = 0,
               otp_cache_file = cache_file, session_saved = False\<rparr>"
  obtain st' res where r: "login_loop 2 envs [1, 2] ?st0 = (st', res)"
    by (cases "login_loop 2 envs [1, 2] ?st0")
  have p: "perform_login 2 envs loaded_otp cache_file = (st', res)"
    unfolding perform_login_def attempts_1_2 using r .
  from login_loop_counts[OF r]
  have le: "attempts_started st' \<le> 2" "otp_generations st' \<le> 2" by simp_all
  have f: "\<exists>msg. res = Inl (RuntimeError msg) \<and> attempts_started st' = 2"
    if v: "verification_fails (envs 1)" "verification_fails (envs 2)"
  proof -
    from verification_fails_raises[OF v(1), of 2 1 ?st0] obtain st1 m1 where
      a1: "login_attempt 2 1 (envs 1) ?st0 = (st1, Raise (RuntimeError m1))" by blast
    from verification_fails_raises[OF v(2), of 2 2 st1] obtain st2 m2 where
      a2: "login_attempt 2 2 (envs 2) st1 = (st2, Raise (RuntimeError m2))" by blast
    have "login_loop 2 envs [1, 2] ?st0 = (st2, Inl (RuntimeError m2))"
      using a1 a2 by simp
    with r have "st' = st2" "res = Inl (RuntimeError m2)" by simp_all
    moreover have "attempts_started st2 = 2"
      using login_attempt_counts[OF a1] login_attempt_counts[OF a2] by simp
    ultimately show ?thesis by blast
  qed
  show ?thesis using le f by (auto simp: p)
qed

text \<open>The theorem of C3 at a run in which the site rejects the OTP in every attempt.\<close>

theorem login_attempt_cap_witness:
  "verification_fails env_rejected \<and>
   (\<exists>msg. snd (perform_login 2 (\<lambda>_. env_rejected) None None) = Inl (RuntimeError msg)) \<and>
   attempts_started (fst (perform_login 2 (\<lambda>_. env_rejected) None None)) = 2"
proof -
  have v: "verification_fails env_rejected"
    by (simp add: verification_fails_def env_rejected_def)
  from login_attempt_cap[of "\<lambda>_. env_rejected" None None] v
  show ?thesis by auto
qed

lemma login_two_rejections_example:
  "perform_login 2 (\<lambda>_. env_rejected) None None =
     (\<lparr>cached_otp = None, otp_generations = 2, attempts_started = 2,
       otp_cache_file = Some ''123456'', session_saved = False\<rparr>,
      Inl (RuntimeError ''Login failed - OTP (from webhook) rejected by IREPS''))"
  unfolding perform_login_def attempts_1_2
  by (simp add: login_attempt_def login_verify_def Let_def env_rejected_def str_truthy_def)

section \<open>Properties of the OTP receiver\<close>






section \<open>Properties of the enrichment stage\<close>

lemma mark_empty_unenriched: "unenriched d \<Longrightarrow> mark_empty d = d"
  by (simp add: unenriched_def mark_empty_def setdefault_def)

lemma set_empty_unenriched:
  "unenriched d \<Longrightarrow>
   AList.update ''attached_documents'' (PDocs []) (AList.update ''tender_doc_download_url'' PNone d) = d"
  by (simp add: unenriched_def update_triv)

lemma retry_loop_cases:
  "retry_loop clicks rs a ds = (ds', res) \<Longrightarrow>
   (res = Succeeded \<and> (\<forall>x. x \<noteq> a \<longrightarrow> ds' x = ds x)) \<or> (res \<noteq> Succeeded \<and> ds' = ds)"
  by (induction rs) (auto split: click_outcome.splits)

lemma untouched_process_row:
  assumes "unenriched d0" "untouched a d0 st"
  shows "untouched a d0 (flow_state (process_row row st))"
proof (cases row)
  case ShortRow
  then show ?thesis using assms by (simp add: process_row_def)
next
  case RowRaises
  then show ?thesis using assms by (simp add: process_row_def)
next
  case (Row wa tn icons clicks)
  show ?thesis
  proof (cases "lower (strip wa) \<noteq> ''works'' \<or> map_of (pending st) (strip tn) = None")
    case True
    then show ?thesis using assms Row by (auto simp: process_row_def Let_def)
  next
    case False
    then obtain b where b: "map_of (pending st) (strip tn) = Some b" and w: "lower (strip wa) = ''works''"
      by auto
    show ?thesis
    proof (cases "icons = 0")
      case True
      then show ?thesis using assms Row b w
        by (auto simp: process_row_def Let_def untouched_def set_empty_unenriched)
    next
      case False
      obtain ds res where r: "retry_loop clicks [0 ..< MAX_RETRIES] b (sd_dicts st) = (ds, res)"
        by (cases "retry_loop clicks [0 ..< MAX_RETRIES] b (sd_dicts st)")
      from retry_loop_cases[OF r] show ?thesis
        using assms Row b w False r
        by (cases res) (auto simp: process_row_def Let_def untouched_def mark_empty_unenriched)
    qed
  qed
qed

lemma scan_rows_invariant:
  assumes step: "\<And>row st. I st \<Longrightarrow> I (flow_state (process_row row st))"
  shows "I st \<Longrightarrow> I (flow_state (scan_rows rows st))"
proof (induction rows arbitrary: st)
  case Nil
  then show ?case by simp
next
  case (Cons row rows)
  from step[OF Cons.prems, of row] have u: "I (flow_state (process_row row st))" .
  show ?case
  proof (cases "process_row row st")
    case (Next st')
    then show ?thesis using u Cons.IH[of st'] Cons.prems by simp
  next
    case (Returned st')
    then show ?thesis using u Cons.prems by simp
  next
    case (Raised e st')
    then show ?thesis using u Cons.prems by simp
  qed
qed

lemma scan_pages_invariant:
  assumes step: "\<And>row st. I st \<Longrightarrow> I (flow_state (process_row row st))"
  shows "I st \<Longrightarrow> I (flow_state (scan_pages pages st))"
proof (induction pages arbitrary: st)
  case Nil
  then show ?case by simp
next
  case (Cons page pages)
  show ?case
  proof (cases page)
    case NoTable
    then show ?thesis using Cons.prems by simp
  next
    case (PageRaises e)
    then show ?thesis using Cons.prems by simp
  next
    case (Table rows)
    from scan_rows_invariant[of I, OF step Cons.prems, of rows]
    have u: "I (flow_state (scan_rows rows st))" .
    show ?thesis
    proof (cases "scan_rows rows st")
      case (Next st')
      then show ?thesis using u Table Cons.IH[of st'] Cons.prems by simp
    next
      case (Returned st')
      then show ?thesis using u Table Cons.prems by simp
    next
      case (Raised e st')
      then show ?thesis using u Table Cons.prems by simp
    qed
  qed
qed

lemma mark_remaining_invariant:
  assumes mark: "\<And>b st. I st \<Longrightarrow>
      I (st\<lparr>sd_dicts := (sd_dicts st)(b := mark_empty (sd_dicts st b)), failed := failed st + 1\<rparr>)"
  shows "I st \<Longrightarrow> I (mark_remaining pend st)"
proof (induction pend arbitrary: st)
  case Nil
  then show ?case by simp
next
  case (Cons p pend)
  obtain tno b where p: "p = (tno, b)" by (cases p)
  from Cons.IH[OF mark[OF Cons.prems, of b]] show ?case using p by simp
qed

lemma scrape_details_cases:
  "(\<exists>pend. fst (scrape_details has_context env h tenders) = sd_init h pend) \<or>
   (\<exists>pend. fst (scrape_details has_context env h tenders) =
      flow_state (scan_pages (first_page env # next_pages env) (sd_init h pend)) \<and>
      (\<forall>st. scan_pages (first_page env # next_pages env) (sd_init h pend) \<noteq> Next st)) \<or>
   (\<exists>pend st. scan_pages (first_page env # next_pages env) (sd_init h pend) = Next st \<and>
      fst (scrape_details has_context env h tenders) = mark_remaining (pending st) st)"
proof (cases has_context)
  case False
  then show ?thesis by (auto simp: scrape_details_def)
next
  case True
  show ?thesis
  proof (cases "build_pending (dicts h) (lists h tenders) []")
    case (Inl e)
    then show ?thesis using True by (auto simp: scrape_details_def)
  next
    case (Inr pend)
    show ?thesis
    proof (cases "pend = [] \<or> navigation env \<noteq> None")
      case True
      then show ?thesis using Inr \<open>has_context\<close> by (auto simp: scrape_details_def)
    next
      case False
      let ?f = "scan_pages (first_page env # next_pages env) (sd_init h pend)"
      have sd: "scrape_details has_context env h tenders =
          (case ?f of
             Raised e st \<Rightarrow> (st, Inl e)
           | Returned st \<Rightarrow> (st, Inr tenders)
           | Next st \<Rightarrow> (mark_remaining (pending st) st, Inr tenders))"
        using False Inr \<open>has_context\<close> by (auto simp: scrape_details_def)
      show ?thesis
      proof (cases ?f)
        case (Next st')
        have "fst (scrape_details has_context env h tenders) = mark_remaining (pending st') st'"
          unfolding sd Next by simp
        with Next show ?thesis by blast
      next
        case (Returned st')
        have "fst (scrape_details has_context env h tenders) = flow_state ?f"
          unfolding sd Returned by simp
        moreover have "\<forall>st. ?f \<noteq> Next st" unfolding Returned by simp
        ultimately show ?thesis by blast
      next
        case (Raised e st')
        have "fst (scrape_details has_context env h tenders) = flow_state ?f"
          unfolding sd Raised by simp
        moreover have "\<forall>st. ?f \<noteq> Next st" unfolding Raised by simp
        ultimately show ?thesis by blast
      qed
    qed
  qed
qed

lemma scrape_details_invariant:
  assumes init: "\<And>pend. I (sd_init h pend)"
    and step: "\<And>row st. I st \<Longrightarrow> I (flow_state (process_row row st))"
    and mark: "\<And>b st. I st \<Longrightarrow>
      I (st\<lparr>sd_dicts := (sd_dicts st)(b := mark_empty (sd_dicts st b)), failed := failed st + 1\<rparr>)"
  shows "I (fst (scrape_details has_context env h tenders))"
proof -
  have sp: "I (flow_state (scan_pages (first_page env # next_pages env) (sd_init h pend)))" for pend
    by (rule scan_pages_invariant[of I, OF step init])
  from scrape_details_cases[of has_context env h tenders]
  show ?thesis
  proof (elim disjE exE conjE)
    fix pend assume "fst (scrape_details has_context env h tenders) = sd_init h pend"
    then show ?thesis using init by simp
  next
    fix pend
    assume "fst (scrape_details has_context env h tenders) =
      flow_state (scan_pages (first_page env # next_pages env) (sd_init h pend))"
    then show ?thesis using sp by simp
  next
    fix pend st
    assume n: "scan_pages (first_page env # next_pages env) (sd_init h pend) = Next st"
      and f: "fst (scrape_details has_context env h tenders) = mark_remaining (pending st) st"
    from sp[of pend] n have "I st" by simp
    from mark_remaining_invariant[of I, OF mark this] f show ?thesis by simp
  qed
qed

lemma untouched_scrape_details:
  assumes "unenriched (dicts h a)"
  shows "untouched a (dicts h a) (fst (scrape_details has_context env h tenders))"
proof (rule scrape_details_invariant)
  show "untouched a (dicts h a) (sd_init h pend)" for pend
    by (simp add: untouched_def sd_init_def)
  show "untouched a (dicts h a) (flow_state (process_row row st))"
    if "untouched a (dicts h a) st" for row st
    by (rule untouched_process_row[OF assms that])
  show "untouched a (dicts h a)
          (st\<lparr>sd_dicts := (sd_dicts st)(b := mark_empty (sd_dicts st b)), failed := failed st + 1\<rparr>)"
    if "untouched a (dicts h a) st" for b st
    using that assms by (auto simp: untouched_def mark_empty_unenriched)
qed

lemma has_fields_update:
  "has_enrichment_fields d \<Longrightarrow> has_enrichment_fields (AList.update k v d)"
  by (simp add: has_enrichment_fields_def update_conv')

lemma has_fields_update_truthy:
  "has_enrichment_fields d \<Longrightarrow> has_enrichment_fields (update_truthy data d)"
  by (induction data d rule: update_truthy.induct) (auto simp: has_fields_update)

lemma has_fields_mark_empty: "has_enrichment_fields d \<Longrightarrow> has_enrichment_fields (mark_empty d)"
  by (simp add: mark_empty_def setdefault_def has_enrichment_fields_def update_conv')

lemma has_fields_apply_extraction:
  "has_enrichment_fields d \<Longrightarrow> has_enrichment_fields (apply_extraction data docs d)"
  by (auto simp: apply_extraction_def Let_def has_fields_update has_fields_update_truthy
      has_fields_mark_empty split: option.splits)

lemma has_fields_retry_loop:
  "retry_loop clicks rs b ds = (ds', res) \<Longrightarrow> has_enrichment_fields (ds a) \<Longrightarrow>
   has_enrichment_fields (ds' a)"
  by (induction rs) (auto simp: has_fields_apply_extraction split: click_outcome.splits)

lemma has_fields_process_row:
  assumes "has_enrichment_fields (sd_dicts st a)"
  shows "has_enrichment_fields (sd_dicts (flow_state (process_row row st)) a)"
proof (cases row)
  case ShortRow
  then show ?thesis using assms by (simp add: process_row_def)
next
  case RowRaises
  then show ?thesis using assms by (simp add: process_row_def)
next
  case (Row wa tn icons clicks)
  show ?thesis
  proof (cases "lower (strip wa) \<noteq> ''works'' \<or> map_of (pending st) (strip tn) = None")
    case True
    then show ?thesis using assms Row by (auto simp: process_row_def Let_def)
  next
    case False
    then obtain b where b: "map_of (pending st) (strip tn) = Some b" and w: "lower (strip wa) = ''works''"
      by auto
    show ?thesis
    proof (cases "icons = 0")
      case True
      then show ?thesis using assms Row b w
        by (auto simp: process_row_def Let_def has_fields_update)
    next
      case False
      obtain ds res where r: "retry_loop clicks [0 ..< MAX_RETRIES] b (sd_dicts st) = (ds, res)"
        by (cases "retry_loop clicks [0 ..< MAX_RETRIES] b (sd_dicts st)")
      from has_fields_retry_loop[OF r assms] show ?thesis
        using Row b w False r
        by (cases res) (auto simp: process_row_def Let_def has_fields_mark_empty)
    qed
  qed
qed

lemma has_fields_scrape_details:
  assumes "has_enrichment_fields (dicts h a)"
  shows "has_enrichment_fields (sd_dicts (fst (scrape_details has_context env h tenders)) a)"
proof (rule scrape_details_invariant[of "\<lambda>st. has_enrichment_fields (sd_dicts st a)"])
  show "has_enrichment_fields (sd_dicts (sd_init h pend) a)" for pend
    using assms by (simp add: sd_init_def)
  show "has_enrichment_fields (sd_dicts (flow_state (process_row row st)) a)"
    if "has_enrichment_fields (sd_dicts st a)" for row st
    by (rule has_fields_process_row[OF that])
  show "has_enrichment_fields
          (sd_dicts (st\<lparr>sd_dicts := (sd_dicts st)(b := mark_empty (sd_dicts st b)),
                       failed := failed st + 1\<rparr>) a)"
    if "has_enrichment_fields (sd_dicts st a)" for b st
    using that by (auto simp: has_fields_mark_empty)
qed

lemma scrape_details_returns:
  "snd (scrape_details has_context env h tenders) = Inr tenders \<or>
   (\<exists>e. snd (scrape_details has_context env h tenders) = Inl e)"
  by (auto simp: scrape_details_def split: sum.splits option.splits flow.splits)

lemma parse_row_cells_unenriched:
  "parse_row_cells re_search cells cell_count action = Inr (Some tender) \<Longrightarrow> unenriched tender"
  by (auto simp: parse_row_cells_def Let_def unenriched_def split: if_splits sum.splits)

text \<open>
  Claim C2. For a non-empty list of harvested tenders, each with both enrichment fields
  empty as phase 1 leaves them, \<open>scrape_tenders\<close> returns the list it was given, with
  the same tenders, whatever happens in phase 2, also when phase 2 raises. Every tender
  of the list that was not counted as enriched is unchanged and has
  \<open>tender_doc_download_url\<close> \<open>None\<close> and \<open>attached_documents\<close> empty; every tender of the list
  has both fields.
\<close>

theorem enrichment_keeps_harvested_records:
  assumes ne: "lists h listing_tenders \<noteq> []"
    and shape: "\<forall>a\<in>set (lists h listing_tenders). unenriched (dicts h a)"
  shows "\<exists>h'. scrape_tenders has_context env h (Inr listing_tenders) =
                 (h', Inr (ListRef listing_tenders)) \<and>
           lists h' = lists h \<and>
           dicts h' = sd_dicts (fst (scrape_details has_context env h listing_tenders)) \<and>
           (\<forall>a\<in>set (lists h listing_tenders).
              a \<notin> set (enriched_refs (fst (scrape_details has_context env h listing_tenders))) \<longrightarrow>
              unenriched (dicts h' a) \<and> dicts h' a = dicts h a) \<and>
           (\<forall>a\<in>set (lists h listing_tenders). has_enrichment_fields (dicts h' a))"
proof -
  let ?sd = "scrape_details has_context env h listing_tenders"
  let ?h' = "h\<lparr>dicts := sd_dicts (fst ?sd)\<rparr>"
  have r: "scrape_tenders has_context env h (Inr listing_tenders) =
             (?h', Inr (ListRef listing_tenders))"
    using ne scrape_details_returns[of has_context env h listing_tenders]
    by (cases ?sd) (auto simp: scrape_tenders_def)
  have u: "unenriched (dicts ?h' a) \<and> dicts ?h' a = dicts h a"
    if "a \<in> set (lists h listing_tenders)" "a \<notin> set (enriched_refs (fst ?sd))" for a
  proof -
    from shape that(1) have s: "unenriched (dicts h a)" by blast
    from untouched_scrape_details[OF s, of has_context env listing_tenders] that(2)
    have "sd_dicts (fst ?sd) a = dicts h a" by (simp add: untouched_def)
    with s show ?thesis by simp
  qed
  have f: "has_enrichment_fields (dicts ?h' a)" if "a \<in> set (lists h listing_tenders)" for a
  proof -
    from shape that have "has_enrichment_fields (dicts h a)"
      by (auto simp: unenriched_def has_enrichment_fields_def)
    from has_fields_scrape_details[OF this, of has_context env listing_tenders]
    show ?thesis by simp
  qed
  show ?thesis using r u f shape by auto
qed

text \<open>The theorem of C2 at a run in which the second listing page raises.\<close>

theorem enrichment_keeps_harvested_records_witness:
  "\<exists>h'. scrape_tenders True env_page_breaks heap_harvested (Inr 0) = (h', Inr (ListRef 0)) \<and>
           lists h' = lists heap_harvested \<and>
           dicts h' = sd_dicts (fst (scrape_details True env_page_breaks heap_harvested 0)) \<and>
           (\<forall>a\<in>set (lists heap_harvested 0).
              a \<notin> set (enriched_refs (fst (scrape_details True env_page_breaks heap_harvested 0))) \<longrightarrow>
              unenriched (dicts h' a) \<and> dicts h' a = dicts heap_harvested a) \<and>
           (\<forall>a\<in>set (lists heap_harvested 0). has_enrichment_fields (dicts h' a))"
  by (rule enrichment_keeps_harvested_records)
    (simp_all add: heap_harvested_def unenriched_def)

lemma lower_Works: "lower ''Works'' = ''works''"
  by code_simp

lemma retries_0_3: "[0 ..< MAX_RETRIES] = [0, 1, 2]"
  by code_simp

lemma scrape_details_page_breaks_example:
  "snd (scrape_details True env_page_breaks heap_harvested 0) =
     Inl (OtherException ''Timeout 30000ms exceeded'') \<and>
   enriched_refs (fst (scrape_details True env_page_breaks heap_harvested 0)) = [] \<and>
   failed (fst (scrape_details True env_page_breaks heap_harvested 0)) = 1 \<and>
   pending (fst (scrape_details True env_page_breaks heap_harvested 0)) = [(''T-2'', 1)]"
  by (simp add: scrape_details_def env_page_breaks_def heap_harvested_def get_tender_no_def
      dict_get_def strip_def is_space_def sd_init_def process_row_def lower_Works
      retries_0_3 Let_def MAX_CONSECUTIVE_FAILURES_def)

lemma retry_loop_dicts_only:
  "retry_loop clicks rs a (sd_dicts (add_failed n st)) = retry_loop clicks rs a (sd_dicts st)"
  by (simp add: add_failed_def)

lemma process_row_add_failed:
  "process_row row (add_failed n st) = flow_map (add_failed n) (process_row row st)"
proof (cases row)
  case ShortRow
  then show ?thesis by (simp add: process_row_def)
next
  case RowRaises
  then show ?thesis by (simp add: process_row_def)
next
  case (Row wa tn icons clicks)
  obtain ds res where r: "retry_loop clicks [0 ..< MAX_RETRIES] (the (map_of (pending st) (strip tn))) (sd_dicts st) = (ds, res)"
    by (cases "retry_loop clicks [0 ..< MAX_RETRIES] (the (map_of (pending st) (strip tn))) (sd_dicts st)")
  show ?thesis using Row r
    by (cases res)
      (auto simp: process_row_def Let_def add_failed_def split: option.splits)
qed

lemma scan_rows_add_failed:
  "scan_rows rows (add_failed n st) = flow_map (add_failed n) (scan_rows rows st)"
proof (induction rows arbitrary: st)
  case Nil
  then show ?case by simp
next
  case (Cons row rows)
  have cf: "consecutive_failures (add_failed n st) = consecutive_failures st"
    by (simp add: add_failed_def)
  show ?case
    by (cases "process_row row st")
      (simp_all add: cf process_row_add_failed Cons.IH)
qed

lemma scan_pages_add_failed:
  "scan_pages pages (add_failed n st) = flow_map (add_failed n) (scan_pages pages st)"
proof (induction pages arbitrary: st)
  case Nil
  then show ?case by simp
next
  case (Cons page pages)
  have p: "pending (add_failed n s) = pending s"
    "consecutive_failures (add_failed n s) = consecutive_failures s" for s
    by (simp_all add: add_failed_def)
  show ?case
  proof (cases page)
    case NoTable
    then show ?thesis by (simp add: p)
  next
    case (PageRaises e)
    then show ?thesis by (simp add: p)
  next
    case (Table rows)
    then show ?thesis
      by (cases "scan_rows rows st") (simp_all add: p scan_rows_add_failed Cons.IH)
  qed
qed

lemma process_row_counters:
  assumes "process_row row st = Next st'"
  shows "st' = st \<or>
     (consecutive_failures st' = 0 \<and> enriched st' = enriched st + 1 \<and> failed st' = failed st) \<or>
     (consecutive_failures st' = consecutive_failures st + 1 \<and> failed st' = failed st + 1 \<and>
      enriched st' = enriched st)"
proof (cases row)
  case ShortRow
  then show ?thesis using assms by (simp add: process_row_def)
next
  case RowRaises
  then show ?thesis using assms by (simp add: process_row_def)
next
  case (Row wa tn icons clicks)
  obtain ds res where r: "retry_loop clicks [0 ..< MAX_RETRIES] (the (map_of (pending st) (strip tn))) (sd_dicts st) = (ds, res)"
    by (cases "retry_loop clicks [0 ..< MAX_RETRIES] (the (map_of (pending st) (strip tn))) (sd_dicts st)")
  show ?thesis using Row r assms
    by (cases res)
      (auto simp: process_row_def Let_def split: option.splits if_splits)
qed

lemma scan_rows_tripped:
  "MAX_CONSECUTIVE_FAILURES \<le> consecutive_failures st \<Longrightarrow> scan_rows rows st = Next st"
  by (cases rows) simp_all

lemma scan_rows_not_tripped:
  "scan_rows rows st = Next st' \<Longrightarrow> consecutive_failures st' < MAX_CONSECUTIVE_FAILURES \<Longrightarrow>
   scan_rows_without_breaker rows st = Next st'"
proof (induction rows arbitrary: st)
  case Nil
  then show ?case by simp
next
  case (Cons row rows)
  show ?case
  proof (cases "MAX_CONSECUTIVE_FAILURES \<le> consecutive_failures st")
    case True
    then have "st' = st" using Cons.prems(1) by simp
    then show ?thesis using True Cons.prems(2) by simp
  next
    case False
    then show ?thesis using Cons
      by (cases "process_row row st") simp_all
  qed
qed

lemma scan_rows_below_limit:
  "below_limit (scan_rows rows st) \<Longrightarrow> scan_rows_without_breaker rows st = scan_rows rows st"
proof (induction rows arbitrary: st)
  case Nil
  then show ?case by simp
next
  case (Cons row rows)
  show ?case
  proof (cases "MAX_CONSECUTIVE_FAILURES \<le> consecutive_failures st")
    case True
    then have "scan_rows (row # rows) st = Next st" by simp
    with Cons.prems True show ?thesis by (simp add: below_limit_def)
  next
    case False
    show ?thesis
    proof (cases "process_row row st")
      case (Next s)
      then have "scan_rows (row # rows) st = scan_rows rows s" using False by simp
      with Cons.prems have "below_limit (scan_rows rows s)" by simp
      from Cons.IH[OF this] show ?thesis using Next False by simp
    next
      case (Returned s)
      then show ?thesis using False by simp
    next
      case (Raised e s)
      then show ?thesis using False by simp
    qed
  qed
qed

lemma scan_pages_below_limit:
  "below_limit (scan_pages pages st) \<Longrightarrow>
   scan_pages_without_breaker pages st = scan_pages pages st"
proof (induction pages arbitrary: st)
  case Nil
  then show ?case by simp
next
  case (Cons page pages)
  show ?case
  proof (cases "pending st = []")
    case True
    then show ?thesis by simp
  next
    case ne: False
    show ?thesis
    proof (cases page)
      case NoTable
      then show ?thesis using ne by simp
    next
      case (PageRaises e)
      then show ?thesis using ne by simp
    next
      case (Table rows)
      show ?thesis
      proof (cases "scan_rows rows st")
        case (Next s)
        show ?thesis
        proof (cases "MAX_CONSECUTIVE_FAILURES \<le> consecutive_failures s")
          case True
          then have "scan_pages (page # pages) st = Next s" using Table ne Next by simp
          with Cons.prems True show ?thesis by (simp add: below_limit_def)
        next
          case False
          then have bl: "below_limit (scan_rows rows st)" using Next by (simp add: below_limit_def)
          have wb: "scan_rows_without_breaker rows st = Next s"
            using scan_rows_below_limit[OF bl] Next by simp
          show ?thesis
          proof (cases "pending s = []")
            case True
            then show ?thesis using Table ne Next False wb by simp
          next
            case False2: False
            have "scan_pages (page # pages) st = scan_pages pages s"
              using Table ne Next False False2 by simp
            with Cons.prems have "below_limit (scan_pages pages s)" by simp
            from Cons.IH[OF this] show ?thesis using Table ne Next False False2 wb by simp
          qed
        qed
      next
        case (Returned s)
        then have bl: "below_limit (scan_rows rows st)" by (simp add: below_limit_def)
        from scan_rows_below_limit[OF bl] show ?thesis using Table ne Returned by simp
      next
        case (Raised e s)
        then have bl: "below_limit (scan_rows rows st)" by (simp add: below_limit_def)
        from scan_rows_below_limit[OF bl] show ?thesis using Table ne Raised by simp
      qed
    qed
  qed
qed

text \<open>
  Claim C8. The limit is 3. Once the counter of consecutive failures has reached it, no
  further row is processed and no further page is visited. Below the limit the next row
  is processed. A processed row leaves the state as it is (a row that is skipped), or
  counts a success and sets the counter to zero, or counts a failure and raises the
  counter by one. A scan of the rows that ends below the limit is the scan without the
  circuit breaker, and the cumulative number of failures has no influence on the scan.
  For the stage as a whole: when the rows of a page end with the counter at the limit,
  the page loop stops there; when they end below the limit with tenders still pending,
  the page loop goes on with the next page; and a page loop that does not end with the
  counter at the limit is, in every outcome, the page loop without the circuit breaker.
\<close>

theorem circuit_breaker:
  "MAX_CONSECUTIVE_FAILURES = 3 \<and>
   (MAX_CONSECUTIVE_FAILURES \<le> consecutive_failures st \<longrightarrow>
      scan_rows rows st = Next st \<and>
      (pending st \<noteq> [] \<longrightarrow> scan_pages (Table rows # pages) st = Next st)) \<and>
   (consecutive_failures st < MAX_CONSECUTIVE_FAILURES \<longrightarrow>
      scan_rows (row # rows) st =
        (case process_row row st of
           Next st' \<Rightarrow> scan_rows rows st'
         | Returned st' \<Rightarrow> Returned st'
         | Raised e st' \<Rightarrow> Raised e st')) \<and>
   (process_row row st = Next st' \<longrightarrow>
      st' = st \<or>
      (consecutive_failures st' = 0 \<and> enriched st' = enriched st + 1 \<and> failed st' = failed st) \<or>
      (consecutive_failures st' = consecutive_failures st + 1 \<and> failed st' = failed st + 1 \<and>
       enriched st' = enriched st)) \<and>
   (scan_rows rows st = Next st' \<and> consecutive_failures st' < MAX_CONSECUTIVE_FAILURES \<longrightarrow>
      scan_rows_without_breaker rows st = Next st') \<and>
   scan_pages pages (add_failed n st) = flow_map (add_failed n) (scan_pages pages st) \<and>
   (pending st \<noteq> [] \<and> scan_rows rows st = Next st' \<and>
    MAX_CONSECUTIVE_FAILURES \<le> consecutive_failures st' \<longrightarrow>
      scan_pages (Table rows # pages) st = Next st') \<and>
   (pending st \<noteq> [] \<and> scan_rows rows st = Next st' \<and>
    consecutive_failures st' < MAX_CONSECUTIVE_FAILURES \<and> pending st' \<noteq> [] \<longrightarrow>
      scan_pages (Table rows # pages) st = scan_pages pages st') \<and>
   (below_limit (scan_pages pages st) \<longrightarrow>
      scan_pages_without_breaker pages st = scan_pages pages st)"
proof -
  have a: "MAX_CONSECUTIVE_FAILURES = 3" by (simp add: MAX_CONSECUTIVE_FAILURES_def)
  have b: "scan_rows rows st = Next st \<and>
      (pending st \<noteq> [] \<longrightarrow> scan_pages (Table rows # pages) st = Next st)"
    if "MAX_CONSECUTIVE_FAILURES \<le> consecutive_failures st"
    using that by (simp add: scan_rows_tripped)
  have c: "scan_rows (row # rows) st =
        (case process_row row st of
           Next st' \<Rightarrow> scan_rows rows st'
         | Returned st' \<Rightarrow> Returned st'
         | Raised e st' \<Rightarrow> Raised e st')"
    if "consecutive_failures st < MAX_CONSECUTIVE_FAILURES"
    using that by simp
  have d: "scan_pages (Table rows # pages) st = Next st'"
    if "pending st \<noteq> []" "scan_rows rows st = Next st'"
      "MAX_CONSECUTIVE_FAILURES \<le> consecutive_failures st'"
    using that by simp
  have e: "scan_pages (Table rows # pages) st = scan_pages pages st'"
    if "pending st \<noteq> []" "scan_rows rows st = Next st'"
      "consecutive_failures st' < MAX_CONSECUTIVE_FAILURES" "pending st' \<noteq> []"
    using that by simp
  show ?thesis
    using a b c d e process_row_counters[of row st st'] scan_rows_not_tripped[of rows st st']
      scan_pages_add_failed[of pages n st] scan_pages_below_limit[of pages st]
    by blast
qed

lemma strip_cells:
  "strip ''Works'' = ''Works''" "strip ''T-1'' = ''T-1''" "strip ''T-2'' = ''T-2''"
  "strip ''T-3'' = ''T-3''" "strip ''T-4'' = ''T-4''" "strip ''T-5'' = ''T-5''"
  "strip ''T-6'' = ''T-6''"
  by (simp_all add: strip_def is_space_def)

lemma scan_rows_interleaved_example:
  "\<exists>st'. scan_rows rows_interleaved st_six = Next st' \<and>
         consecutive_failures st' = 1 \<and> failed st' = 4 \<and> enriched st' = 2 \<and>
         pending st' = [] \<and> enriched_refs st' = [2, 5]"
  by (simp add: rows_interleaved_def st_six_def process_row_def Let_def strip_cells lower_Works
      retries_0_3 clicks_ok_def clicks_fail_def MAX_CONSECUTIVE_FAILURES_def)

lemma scan_rows_consecutive_example:
  "\<exists>st'. scan_rows rows_consecutive st_six = Next st' \<and>
         consecutive_failures st' = 3 \<and> failed st' = 3 \<and> enriched st' = 0 \<and>
         pending st' = [(''T-2'', 2), (''T-5'', 5), (''T-6'', 6)]"
  by (simp add: rows_consecutive_def st_six_def process_row_def Let_def strip_cells lower_Works
      retries_0_3 clicks_ok_def clicks_fail_def MAX_CONSECUTIVE_FAILURES_def)

lemma scan_pages_two_example:
  "\<exists>st'. scan_pages pages_two st_six = Next st' \<and>
         consecutive_failures st' = 0 \<and> failed st' = 1 \<and> enriched st' = 1 \<and>
         enriched_refs st' = [2] \<and>
         pending st' = [(''T-3'', 3), (''T-4'', 4), (''T-5'', 5), (''T-6'', 6)]"
  by (simp add: pages_two_def st_six_def process_row_def Let_def strip_cells lower_Works
      retries_0_3 clicks_ok_def clicks_fail_def MAX_CONSECUTIVE_FAILURES_def)

text \<open>
  The theorem of C8 at two scans of six pending tenders: four failures separated by
  successes are all processed; three failures in a row stop the scan before \<open>T-2\<close>.
  And at two pages: after one failure on the first page the loop goes on to the second
  page and enriches \<open>T-2\<close> there, as the loop without the circuit breaker does.
\<close>

theorem circuit_breaker_witness:
  "(\<exists>st'. scan_rows rows_interleaved st_six = Next st' \<and>
          scan_rows_without_breaker rows_interleaved st_six = Next st' \<and>
          consecutive_failures st' = 1 \<and> failed st' = 4 \<and> pending st' = []) \<and>
   (\<exists>st'. scan_rows rows_consecutive st_six = Next st' \<and>
          consecutive_failures st' = 3 \<and>
          scan_rows [Row ''Works'' ''T-2'' 1 clicks_ok] st' = Next st' \<and>
          scan_pages [Table [Row ''Works'' ''T-2'' 1 clicks_ok]] st' = Next st' \<and>
          scan_pages [Table rows_consecutive, Table [Row ''Works'' ''T-2'' 1 clicks_ok]] st_six =
            Next st') \<and>
   (\<exists>st1 st'. scan_rows [Row ''Works'' ''T-1'' 0 clicks_fail, ShortRow] st_six = Next st1 \<and>
          consecutive_failures st1 = 1 \<and>
          scan_pages pages_two st_six = scan_pages [Table [Row ''Works'' ''T-2'' 1 clicks_ok]] st1 \<and>
          scan_pages pages_two st_six = Next st' \<and>
          scan_pages_without_breaker pages_two st_six = Next st' \<and>
          consecutive_failures st' = 0 \<and> failed st' = 1 \<and> enriched st' = 1 \<and>
          enriched_refs st' = [2])"
proof -
  from scan_rows_interleaved_example obtain s1 where
    s1: "scan_rows rows_interleaved st_six = Next s1" "consecutive_failures s1 = 1"
      "failed s1 = 4" "pending s1 = []" by blast
  from circuit_breaker[of st_six rows_interleaved "[]" ShortRow s1 0] s1
  have w1: "scan_rows_without_breaker rows_interleaved st_six = Next s1"
    by (simp add: MAX_CONSECUTIVE_FAILURES_def)
  from scan_rows_consecutive_example obtain s2 where
    s2: "scan_rows rows_consecutive st_six = Next s2" "consecutive_failures s2 = 3"
      "pending s2 = [(''T-2'', 2), (''T-5'', 5), (''T-6'', 6)]" by blast
  from circuit_breaker[of s2 "[Row ''Works'' ''T-2'' 1 clicks_ok]" "[]" ShortRow s2 0] s2
  have w2: "scan_rows [Row ''Works'' ''T-2'' 1 clicks_ok] s2 = Next s2"
    "scan_pages [Table [Row ''Works'' ''T-2'' 1 clicks_ok]] s2 = Next s2"
    by (simp_all add: MAX_CONSECUTIVE_FAILURES_def)
  have p6: "pending st_six \<noteq> []" by (simp add: st_six_def)
  from circuit_breaker[of st_six rows_consecutive "[Table [Row ''Works'' ''T-2'' 1 clicks_ok]]"
      ShortRow s2 0] s2 p6
  have w3: "scan_pages [Table rows_consecutive, Table [Row ''Works'' ''T-2'' 1 clicks_ok]] st_six =
      Next s2"
    by (simp add: MAX_CONSECUTIVE_FAILURES_def)
  have "\<exists>st1. scan_rows [Row ''Works'' ''T-1'' 0 clicks_fail, ShortRow] st_six = Next st1 \<and>
      consecutive_failures st1 = 1 \<and> pending st1 \<noteq> []"
    by (simp add: st_six_def process_row_def Let_def strip_cells lower_Works
        retries_0_3 clicks_fail_def MAX_CONSECUTIVE_FAILURES_def)
  then obtain s3 where
    s3: "scan_rows [Row ''Works'' ''T-1'' 0 clicks_fail, ShortRow] st_six = Next s3"
      "consecutive_failures s3 = 1" "pending s3 \<noteq> []" by blast
  from circuit_breaker[of st_six "[Row ''Works'' ''T-1'' 0 clicks_fail, ShortRow]"
      "[Table [Row ''Works'' ''T-2'' 1 clicks_ok]]" ShortRow s3 0] s3 p6
  have w4: "scan_pages pages_two st_six = scan_pages [Table [Row ''Works'' ''T-2'' 1 clicks_ok]] s3"
    by (simp add: MAX_CONSECUTIVE_FAILURES_def pages_two_def)
  from scan_pages_two_example obtain s4 where
    s4: "scan_pages pages_two st_six = Next s4" "consecutive_failures s4 = 0" "failed s4 = 1"
      "enriched s4 = 1" "enriched_refs s4 = [2]" by blast
  from circuit_breaker[of st_six "[]" pages_two ShortRow st_six 0] s4
  have w5: "scan_pages_without_breaker pages_two st_six = Next s4"
    by (simp add: below_limit_def MAX_CONSECUTIVE_FAILURES_def)
  show ?thesis using s1 w1 s2 w2 w3 s3 w4 s4 w5 by blast
qed

end
